theory Spec2Isabelle
  imports Complex_Main "HOL-Library.Sublist"
begin

section \<open>Data model of \<^verbatim>\<open>HierarchicalRadiosity\<close> (src/lib/hierarchical.h)\<close>

text \<open>
  Scalars: the C++ \<^verbatim>\<open>float\<close> is modelled by \<^typ>\<open>real\<close> (exact arithmetic, no rounding,
  no NaN); \<^verbatim>\<open>size_t\<close> and \<^verbatim>\<open>TriangleId\<close> by \<^typ>\<open>nat\<close> (no wrap-around).

  \<^verbatim>\<open>Color\<close> comes from types.h, which is not part of the sources at hand: it is a
  four-channel colour whose default constructor is black and whose arithmetic is
  channel-wise.  The functions below are used where the C++ writes \<^verbatim>\<open>Color()\<close>,
  \<^verbatim>\<open>+\<close>, \<^verbatim>\<open>*\<close> and \<^verbatim>\<open>/\<close> on colours.
\<close>

record color =
  col_r :: real
  col_g :: real
  col_b :: real
  col_a :: real

definition color_zero :: color where
  "color_zero = \<lparr>col_r = 0, col_g = 0, col_b = 0, col_a = 0\<rparr>"

definition color_add :: "color \<Rightarrow> color \<Rightarrow> color" where
  "color_add x y = \<lparr>col_r = col_r x + col_r y, col_g = col_g x + col_g y,
                    col_b = col_b x + col_b y, col_a = col_a x + col_a y\<rparr>"

definition color_mul :: "color \<Rightarrow> color \<Rightarrow> color" where
  "color_mul x y = \<lparr>col_r = col_r x * col_r y, col_g = col_g x * col_g y,
                    col_b = col_b x * col_b y, col_a = col_a x * col_a y\<rparr>"

definition color_scale :: "color \<Rightarrow> real \<Rightarrow> color" where
  "color_scale x k = \<lparr>col_r = col_r x * k, col_g = col_g x * k,
                      col_b = col_b x * k, col_a = col_a x * k\<rparr>"

definition color_div :: "color \<Rightarrow> real \<Rightarrow> color" where
  "color_div x k = \<lparr>col_r = col_r x / k, col_g = col_g x / k,
                    col_b = col_b x / k, col_a = col_a x / k\<rparr>"

text \<open>
  A \<^verbatim>\<open>Quadnode*\<close> is modelled by the position of the node in the ownership forest:
  the index of its root in \<^verbatim>\<open>nodes_\<close>, followed by the child slots on the way down.
  Nodes are never moved or deleted once links exist, so a position identifies a node
  as its address does.
\<close>

type_synonym ptr = "nat list"

record linknode =
  link_q :: ptr
  form_factor :: real

record qinfo =
  root_tri_id :: nat
  tri_id :: nat
  face_id :: nat
  area :: real
  rad_gather :: color
  rad_shoot :: color
  emission :: color
  rho :: color
  parent :: "ptr option"
  gathering_from :: "linknode list"

text \<open>
  \<^verbatim>\<open>std::array<std::unique_ptr<Quadnode>, 4> children\<close>: a node owns its children.
  The list is empty while all four slots are null; \<^verbatim>\<open>subdivide\<close> is the only writer
  and fills slots 0 to 3 in this order.
\<close>

datatype quadnode = Quadnode (info: qinfo) (children: "quadnode list")

definition is_leaf :: "quadnode \<Rightarrow> bool" where
  "is_leaf p = (case children p of [] \<Rightarrow> True | c # cs \<Rightarrow> False)"

text \<open>
  The members of the class.  \<^verbatim>\<open>KDTree\<close>, \<^verbatim>\<open>Triangle\<close>, \<^verbatim>\<open>RadiosityMesh\<close> and the free
  functions \<^verbatim>\<open>form_factor\<close>, \<^verbatim>\<open>solid_angle\<close>, \<^verbatim>\<open>build_mesh\<close> and \<^verbatim>\<open>subdivide4\<close> are declared
  in headers that are not part of the sources at hand; they are parameters of the model.
\<close>

record ('tri, 'mesh) env =
  tree_triangles :: "'tri list"
  F_eps :: real
  A_eps :: real
  BF_eps :: real
  max_iterations :: nat
  tri_area :: "'tri \<Rightarrow> real"
  tri_emissive :: "'tri \<Rightarrow> color"
  tri_diffuse :: "'tri \<Rightarrow> color"
  cos_theta :: "'tri \<Rightarrow> 'tri \<Rightarrow> real"
  solid_angle :: "'tri \<Rightarrow> 'tri \<Rightarrow> real"
  m_pi :: real
  ff_oracle :: "'tri \<Rightarrow> 'tri \<Rightarrow> nat \<Rightarrow> real"
  build_mesh :: "'tri list \<Rightarrow> 'mesh"
  subdivide4 :: "'mesh \<Rightarrow> nat \<Rightarrow> nat list \<times> 'mesh"
  face_triangle :: "'mesh \<Rightarrow> 'tri \<Rightarrow> nat \<Rightarrow> 'tri"

record ('tri, 'mesh) state =
  nodes :: "quadnode list"
  subdivided_tris :: "'tri list"
  mesh :: 'mesh

subsection \<open>Dereferencing and in-place update\<close>

fun node_at :: "quadnode list \<Rightarrow> ptr \<Rightarrow> quadnode option" where
  "node_at F [] = None"
| "node_at F [i] = (if i < length F then Some (F ! i) else None)"
| "node_at F (i # j # js) =
     (if i < length F then node_at (children (F ! i)) (j # js) else None)"

fun update_at :: "(quadnode \<Rightarrow> quadnode) \<Rightarrow> ptr \<Rightarrow> quadnode list \<Rightarrow> quadnode list" where
  "update_at f [] F = F"
| "update_at f [i] F = (if i < length F then F[i := f (F ! i)] else F)"
| "update_at f (i # j # js) F =
     (if i < length F
      then F[i := Quadnode (info (F ! i)) (update_at f (j # js) (children (F ! i)))]
      else F)"

definition map_info :: "(qinfo \<Rightarrow> qinfo) \<Rightarrow> quadnode \<Rightarrow> quadnode" where
  "map_info f n = Quadnode (f (info n)) (children n)"

definition node_of :: "('tri, 'mesh) state \<Rightarrow> ptr \<Rightarrow> quadnode" where
  "node_of st p = the (node_at (nodes st) p)"

definition info_of :: "('tri, 'mesh) state \<Rightarrow> ptr \<Rightarrow> qinfo" where
  "info_of st p = info (node_of st p)"

definition info_at :: "quadnode list \<Rightarrow> ptr \<Rightarrow> qinfo option" where
  "info_at F p = map_option info (node_at F p)"

text \<open>The pointers to the children of \<open>p\<close>, in slot order.\<close>

definition child_ptrs :: "('tri, 'mesh) state \<Rightarrow> ptr \<Rightarrow> ptr list" where
  "child_ptrs st p = map (\<lambda>i. p @ [i]) [0..<length (children (node_of st p))]"

section \<open>Operations\<close>

definition next_triangle_id :: "('tri, 'mesh) env \<Rightarrow> ('tri, 'mesh) state \<Rightarrow> nat" where
  "next_triangle_id env st = length (tree_triangles env) + length (subdivided_tris st)"

definition is_root :: "('tri, 'mesh) env \<Rightarrow> qinfo \<Rightarrow> bool" where
  "is_root env p = (tri_id p < length (tree_triangles env))"

definition get_triangle :: "('tri, 'mesh) env \<Rightarrow> ('tri, 'mesh) state \<Rightarrow> qinfo \<Rightarrow> 'tri" where
  "get_triangle env st p =
     (if is_root env p then tree_triangles env ! root_tri_id p
      else subdivided_tris st ! (tri_id p - length (tree_triangles env)))"

definition estimate_form_factor ::
  "('tri, 'mesh) env \<Rightarrow> ('tri, 'mesh) state \<Rightarrow> qinfo \<Rightarrow> qinfo \<Rightarrow> real" where
  "estimate_form_factor env st p q =
     (let tri_p = get_triangle env st p;
          tri_q = get_triangle env st q;
          c = cos_theta env tri_p tri_q
      in if c < 0 then 0
         else let omega_q = solid_angle env tri_p tri_q in c * omega_q / m_pi env)"

text \<open>One round of the loop \<^verbatim>\<open>for (size_t i = 0; i < 4; ++i)\<close> of \<^verbatim>\<open>subdivide\<close>.\<close>

definition subdivide_child ::
  "('tri, 'mesh) env \<Rightarrow> ptr \<Rightarrow> real \<Rightarrow> 'tri \<Rightarrow> nat list \<Rightarrow> nat
    \<Rightarrow> ('tri, 'mesh) state \<Rightarrow> ('tri, 'mesh) state" where
  "subdivide_child env p p_area_4 tri faces i st =
     (let pn = info_of st p;
          qnode = \<lparr>root_tri_id = root_tri_id pn,
                   tri_id = next_triangle_id env st,
                   face_id = faces ! i,
                   area = p_area_4,
                   rad_gather = color_zero,
                   rad_shoot = rad_shoot pn,
                   emission = emission pn,
                   rho = rho pn,
                   parent = Some p,
                   gathering_from = []\<rparr>;
          child_tri = face_triangle env (mesh st) tri (faces ! i)
      in st\<lparr>nodes := update_at (\<lambda>n. Quadnode (info n) (children n @ [Quadnode qnode []]))
                         p (nodes st),
            subdivided_tris := subdivided_tris st @ [child_tri]\<rparr>)"

text \<open>
  \<^verbatim>\<open>subdivide(p)\<close>.  The source binds the triangle of \<open>p\<close> by reference
  (\<^verbatim>\<open>const auto& tri = get_triangle(p)\<close>) and reads it in every round of the loop.  For a
  root the reference points into the scene; for any other patch it points into
  \<^verbatim>\<open>subdivided_tris_\<close>, which the loop itself grows by \<^verbatim>\<open>emplace_back\<close>, and what is read
  through it once the vector has moved its storage is not defined by the language.  The
  model reads the triangle once, before the loop.  The flag returned, the nodes with all
  their fields and the length of \<^verbatim>\<open>subdivided_tris_\<close> are those of the program in either
  case; the contents of the four triangles stored for a patch that is not a root are those
  of the program only as long as the storage has not moved.
\<close>

definition subdivide ::
  "('tri, 'mesh) env \<Rightarrow> ptr \<Rightarrow> ('tri, 'mesh) state \<Rightarrow> bool \<times> ('tri, 'mesh) state" where
  "subdivide env p st =
     (if \<not> is_leaf (node_of st p) then (True, st)
      else let p_area_4 = area (info_of st p) / 4 in
        if p_area_4 < A_eps env then (False, st)
        else let (faces, mesh') = subdivide4 env (mesh st) (face_id (info_of st p));
                 st1 = st\<lparr>mesh := mesh'\<rparr>;
                 tri = get_triangle env st1 (info_of st1 p)
             in (True, fold (subdivide_child env p p_area_4 tri faces) [0..<4] st1))"

text \<open>\<^verbatim>\<open>link(p, q)\<close>: \<open>p\<close> gathers from \<open>q\<close>, with the form factor of the external oracle.\<close>

definition link :: "('tri, 'mesh) env \<Rightarrow> ptr \<Rightarrow> ptr \<Rightarrow> ('tri, 'mesh) state \<Rightarrow> ('tri, 'mesh) state" where
  "link env p q st =
     (let tri_p = get_triangle env st (info_of st p);
          tri_q = get_triangle env st (info_of st q);
          F_pq = ff_oracle env tri_p tri_q (root_tri_id (info_of st q))
      in st\<lparr>nodes := update_at
            (map_info (\<lambda>n. n\<lparr>gathering_from :=
                 gathering_from n @ [\<lparr>link_q = q, form_factor = F_pq\<rparr>]\<rparr>))
            p (nodes st)\<rparr>)"


subsection \<open>Pairwise refinement\<close>

text \<open>
  One round of the loop \<^verbatim>\<open>while (!node_stack.empty())\<close> of \<^verbatim>\<open>refine\<close>, for the pair
  \<open>(p, q)\<close> just popped: the new state and the pairs pushed, in the order of the pushes.
\<close>

definition refine_step ::
  "('tri, 'mesh) env \<Rightarrow> ptr \<Rightarrow> ptr \<Rightarrow> ('tri, 'mesh) state
    \<Rightarrow> ('tri, 'mesh) state \<times> (ptr \<times> ptr) list" where
  "refine_step env p q st =
     (let F_pq = estimate_form_factor env st (info_of st p) (info_of st q);
          F_qp = estimate_form_factor env st (info_of st q) (info_of st p)
      in if F_pq < F_eps env \<and> F_qp < F_eps env then (link env p q st, [])
         else if F_qp < F_pq then
           (case subdivide env q st of
              (True, st') \<Rightarrow> (st', map (\<lambda>c. (p, c)) (child_ptrs st' q))
            | (False, st') \<Rightarrow> (link env p q st', []))
         else
           (case subdivide env p st of
              (True, st') \<Rightarrow> (st', map (\<lambda>c. (c, q)) (child_ptrs st' p))
            | (False, st') \<Rightarrow> (link env p q st', [])))"

text \<open>
  The work stack has its top at the head of the list.  The loop need not end (the
  area floor may be non-positive), so it runs on fuel: \<open>None\<close> is "still running".
\<close>

fun refine_loop ::
  "nat \<Rightarrow> ('tri, 'mesh) env \<Rightarrow> (ptr \<times> ptr) list \<Rightarrow> ('tri, 'mesh) state
    \<Rightarrow> ('tri, 'mesh) state option" where
  "refine_loop n env [] st = Some st"
| "refine_loop 0 env (pq # stack) st = None"
| "refine_loop (Suc n) env ((p, q) # stack) st =
     (case refine_step env p q st of
        (st', pushed) \<Rightarrow> refine_loop n env (rev pushed @ stack) st')"

definition refine ::
  "nat \<Rightarrow> ('tri, 'mesh) env \<Rightarrow> ptr \<Rightarrow> ptr \<Rightarrow> ('tri, 'mesh) state
    \<Rightarrow> ('tri, 'mesh) state option" where
  "refine n env p q st = refine_loop n env [(p, q)] st"

subsection \<open>Solver\<close>

text \<open>The body of the loop of \<^verbatim>\<open>gather_radiosity\<close> for the node \<open>p\<close> just popped.\<close>

definition gather_node :: "('tri, 'mesh) state \<Rightarrow> ptr \<Rightarrow> ('tri, 'mesh) state" where
  "gather_node st p =
     (let acc = fold (\<lambda>l acc. color_add acc
                        (color_scale (rad_shoot (info_of st (link_q l))) (form_factor l)))
                  (gathering_from (info_of st p)) color_zero
      in st\<lparr>nodes := update_at (map_info (\<lambda>n. n\<lparr>rad_gather := color_mul (rho n) acc\<rparr>))
                         p (nodes st)\<rparr>)"

text \<open>The number of nodes of a subtree, and of the subtree a pointer refers to.\<close>

fun nnodes :: "quadnode \<Rightarrow> nat" where
  "nnodes (Quadnode i cs) = Suc (sum_list (map nnodes cs))"

definition nnodes_at :: "quadnode list \<Rightarrow> ptr \<Rightarrow> nat" where
  "nnodes_at F p = (case node_at F p of None \<Rightarrow> 0 | Some n \<Rightarrow> nnodes n)"

subsection \<open>Facts about dereferencing and in-place update\<close>

text \<open>
  What the code can read of a node through a pointer: its fields and the number of its
  children.  An update at \<open>p\<close> leaves this unchanged at every position that is not at or
  below \<open>p\<close>.
\<close>

lemma length_update_at [simp]: "length (update_at f p F) = length F"
  by (induction f p F rule: update_at.induct) auto

lemma update_at_invalid: "node_at F p = None \<Longrightarrow> update_at f p F = F"
  by (induction f p F rule: update_at.induct) (auto simp: list_update_same_conv)

lemma node_at_update_same: "node_at (update_at f p F) p = map_option f (node_at F p)"
  by (induction f p F rule: update_at.induct) auto

lemma node_at_append:
  "p \<noteq> [] \<Longrightarrow> r \<noteq> [] \<Longrightarrow>
   node_at F (p @ r) = (case node_at F p of None \<Rightarrow> None | Some n \<Rightarrow> node_at (children n) r)"
proof (induction F p rule: node_at.induct)
  case (2 F i)
  then show ?case by (cases r) auto
qed auto

lemma node_at_update_below:
  "node_at F p = Some n \<Longrightarrow> r \<noteq> [] \<Longrightarrow>
   node_at (update_at f p F) (p @ r) = node_at (children (f n)) r"
proof (induction f p F rule: update_at.induct)
  case (2 f i F)
  then show ?case by (cases r) (auto split: if_splits)
qed (auto split: if_splits)

definition obs :: "quadnode \<Rightarrow> qinfo \<times> nat" where
  "obs n = (info n, length (children n))"

definition obs_at :: "quadnode list \<Rightarrow> ptr \<Rightarrow> (qinfo \<times> nat) option" where
  "obs_at F p = map_option obs (node_at F p)"

lemma obs_at_update_other:
  "\<not> prefix p x \<Longrightarrow> obs_at (update_at f p F) x = obs_at F x"
proof (induction f p F arbitrary: x rule: update_at.induct)
  case (1 f F)
  then show ?case by simp
next
  case (2 f i F)
  then show ?case
  proof (cases x)
    case Nil
    then show ?thesis by (simp add: obs_at_def)
  next
    case (Cons k ks)
    then show ?thesis using 2 by (cases ks) (auto simp: obs_at_def nth_list_update)
  qed
next
  case (3 f i j js F)
  show ?case
  proof (cases x)
    case Nil
    then show ?thesis by (simp add: obs_at_def)
  next
    case (Cons k ks)
    show ?thesis
    proof (cases "k = i \<and> i < length F")
      case False
      then show ?thesis using Cons by (cases ks) (auto simp: obs_at_def nth_list_update)
    next
      case True
      show ?thesis
      proof (cases ks)
        case Nil
        then show ?thesis using True Cons by (auto simp: obs_at_def obs_def)
      next
        case (Cons k' ks')
        have "\<not> prefix (j # js) ks" using "3.prems" True \<open>x = k # ks\<close> by auto
        from "3.IH"[OF _ this] True have "obs_at (update_at f (j # js) (children (F ! i))) ks = obs_at (children (F ! i)) ks"
          by simp
        then show ?thesis using True Cons \<open>x = k # ks\<close> by (auto simp: obs_at_def)
      qed
    qed
  qed
qed

lemma update_at_map_info_nnodes:
  "map nnodes (update_at (map_info g) p F) = map nnodes F"
proof (induction "map_info g" p F rule: update_at.induct)
  case (2 i F)
  then show ?case by (cases "F ! i") (auto simp: map_update map_info_def list_update_same_conv)
next
  case (3 i j js F)
  then show ?case
    by (cases "F ! i") (auto simp: map_update list_update_same_conv)
qed simp

lemma nnodes_at_update_map_info:
  "nnodes_at (update_at (map_info g) p F) x = nnodes_at F x"
proof (induction F x arbitrary: p rule: node_at.induct)
  case (1 F)
  then show ?case by (simp add: nnodes_at_def)
next
  case (2 F i)
  have "map nnodes (update_at (map_info g) p F) ! i = map nnodes F ! i"
    by (simp only: update_at_map_info_nnodes)
  then show ?case by (auto simp: nnodes_at_def)
next
  case (3 F i j js)
  show ?case
  proof (cases p)
    case Nil
    then show ?thesis by simp
  next
    case (Cons k ks)
    show ?thesis
    proof (cases ks)
      case Nil
      then show ?thesis using Cons by (auto simp: nnodes_at_def nth_list_update map_info_def)
    next
      case (Cons k' ks')
      then show ?thesis using \<open>p = k # ks\<close> 3[of "ks"]
        by (auto simp: nnodes_at_def nth_list_update)
    qed
  qed
qed

lemma nnodes_at_children:
  "node_at F p = Some n \<Longrightarrow>
   nnodes_at F p = Suc (sum_list (map (\<lambda>i. nnodes_at F (p @ [i])) [0..<length (children n)]))"
proof -
  assume a: "node_at F p = Some n"
  then have pne: "p \<noteq> []" by (cases p) auto
  have "\<And>i. i < length (children n) \<Longrightarrow> nnodes_at F (p @ [i]) = nnodes (children n ! i)"
    using a pne by (simp add: nnodes_at_def node_at_append)
  then have "map (\<lambda>i. nnodes_at F (p @ [i])) [0..<length (children n)] = map nnodes (children n)"
    by (intro nth_equalityI) auto
  then show ?thesis using a by (cases n) (simp add: nnodes_at_def)
qed

text \<open>
  \<^verbatim>\<open>gather_radiosity\<close>: the loop over the explicit stack (top at the head of the list).
  A null or dangling pointer never reaches the stack in the C++; the model drops one.
\<close>

function gather_loop :: "ptr list \<Rightarrow> ('tri, 'mesh) state \<Rightarrow> ('tri, 'mesh) state" where
  "gather_loop [] st = st"
| "gather_loop (p # stack) st =
     (case node_at (nodes st) p of
        None \<Rightarrow> gather_loop stack st
      | Some pn \<Rightarrow>
          let st' = gather_node st p in
          if is_leaf (node_of st' p) then gather_loop stack st'
          else gather_loop (rev (child_ptrs st' p) @ stack) st')"
  by pat_completeness auto
termination
proof (relation "measures [\<lambda>(stack, st). sum_list (map (nnodes_at (nodes st)) stack),
                           \<lambda>(stack, st). length stack]", goal_cases)
  case 1
  then show ?case by simp
next
  case (2 p stack st)
  then show ?case by (simp add: nnodes_at_def)
next
  case (3 p stack st pn st')
  have "nnodes_at (nodes st') = nnodes_at (nodes st)"
    using 3 by (auto simp: gather_node_def nnodes_at_update_map_info Let_def)
  moreover have "0 < nnodes_at (nodes st) p"
    using 3 by (cases pn) (simp add: nnodes_at_def)
  ultimately show ?case by simp
next
  case (4 p stack st pn st')
  obtain n' where n: "node_at (nodes st') p = Some n'"
    using 4 by (simp add: gather_node_def node_at_update_same Let_def)
  have "sum_list (map (nnodes_at (nodes st')) (child_ptrs st' p)) < nnodes_at (nodes st') p"
    using nnodes_at_children[OF n] n
    by (simp add: child_ptrs_def node_of_def comp_def)
  moreover have "nnodes_at (nodes st') = nnodes_at (nodes st)"
    using 4 by (auto simp: gather_node_def nnodes_at_update_map_info Let_def)
  ultimately show ?case by (simp add: rev_map[symmetric] sum_list_rev)
qed

definition gather_radiosity :: "ptr \<Rightarrow> ('tri, 'mesh) state \<Rightarrow> ('tri, 'mesh) state" where
  "gather_radiosity p st = gather_loop [p] st"

text \<open>
  \<^verbatim>\<open>push_pull_radiosity\<close> reads and writes only the subtree of its argument, so it is a
  function on that subtree: the value returned and the subtree after the call.
\<close>

fun push_pull_radiosity :: "quadnode \<Rightarrow> color \<Rightarrow> color \<times> quadnode" where
  "push_pull_radiosity (Quadnode i cs) rad_down =
     (if is_leaf (Quadnode i cs) then
        let i' = i\<lparr>rad_shoot := color_add (color_add (emission i) (rad_gather i)) rad_down\<rparr>
        in (rad_shoot i', Quadnode i' cs)
      else
        let rs = map (\<lambda>c. push_pull_radiosity c (color_add (rad_gather i) rad_down)) cs;
            rad_up = fold (\<lambda>x acc. color_add acc (fst x)) rs color_zero;
            i' = i\<lparr>rad_shoot := color_div rad_up 4\<rparr>
        in (rad_shoot i', Quadnode i' (map snd rs)))"

text \<open>One round of the loop \<^verbatim>\<open>while (iteration--)\<close> of \<^verbatim>\<open>solve_system\<close>.\<close>

definition gather_sweep :: "('tri, 'mesh) state \<Rightarrow> ('tri, 'mesh) state" where
  "gather_sweep st = fold (\<lambda>i. gather_radiosity [i]) [0..<length (nodes st)] st"

definition push_pull_sweep :: "('tri, 'mesh) state \<Rightarrow> ('tri, 'mesh) state" where
  "push_pull_sweep st = st\<lparr>nodes := map (\<lambda>p. snd (push_pull_radiosity p color_zero)) (nodes st)\<rparr>"

definition solve_iteration :: "('tri, 'mesh) state \<Rightarrow> ('tri, 'mesh) state" where
  "solve_iteration st = push_pull_sweep (gather_sweep st)"

definition solve_system :: "('tri, 'mesh) env \<Rightarrow> ('tri, 'mesh) state \<Rightarrow> ('tri, 'mesh) state" where
  "solve_system env st = (solve_iteration ^^ max_iterations env) st"

subsection \<open>Link refinement\<close>

definition refine_link ::
  "('tri, 'mesh) env \<Rightarrow> ptr \<Rightarrow> linknode \<Rightarrow> ('tri, 'mesh) state
    \<Rightarrow> bool \<times> ('tri, 'mesh) state" where
  "refine_link env p link_node st =
     (let q = link_q link_node;
          tri_p = get_triangle env st (info_of st p);
          tri_q = get_triangle env st (info_of st q);
          oracle = color_scale (color_scale (rad_shoot (info_of st q)) (tri_area env tri_q))
                     (form_factor link_node)
      in if col_r oracle > BF_eps env \<or> col_g oracle > BF_eps env \<or> col_b oracle > BF_eps env
         then
           let F_pq = form_factor link_node;
               F_qp = F_pq * tri_area env tri_p / tri_area env tri_q
           in if F_pq < F_qp then
                (case subdivide env p st of
                   (True, st') \<Rightarrow> (True, fold (\<lambda>c. link env c q) (child_ptrs st' p) st')
                 | (False, st') \<Rightarrow> (False, st'))
              else
                (case subdivide env q st of
                   (True, st') \<Rightarrow> (True, fold (\<lambda>c. link env p c) (child_ptrs st' q) st')
                 | (False, st') \<Rightarrow> (False, st'))
         else (False, st))"

text \<open>\<^verbatim>\<open>links.erase(links.begin() + i)\<close> on the links of \<open>p\<close>.\<close>

definition erase_link :: "ptr \<Rightarrow> nat \<Rightarrow> ('tri, 'mesh) state \<Rightarrow> ('tri, 'mesh) state" where
  "erase_link p i st =
     st\<lparr>nodes := update_at
          (map_info (\<lambda>n. n\<lparr>gathering_from :=
             take i (gathering_from n) @ drop (Suc i) (gathering_from n)\<rparr>))
          p (nodes st)\<rparr>"

text \<open>
  The loop \<^verbatim>\<open>while (i < size)\<close> of \<^verbatim>\<open>refine_links(Quadnode& p)\<close>, on \<open>i\<close>, \<open>size\<close> (here \<open>sz\<close>),
  the flag \<open>refined\<close> and the state.
\<close>

function refine_links_loop ::
  "('tri, 'mesh) env \<Rightarrow> ptr \<Rightarrow> nat \<Rightarrow> nat \<Rightarrow> bool \<times> ('tri, 'mesh) state
    \<Rightarrow> bool \<times> ('tri, 'mesh) state" where
  "refine_links_loop env p i sz (refined, st) =
     (if i < sz then
        (case refine_link env p (gathering_from (info_of st p) ! i) st of
           (True, st') \<Rightarrow> refine_links_loop env p i (sz - 1) (True, erase_link p i st')
         | (False, st') \<Rightarrow> refine_links_loop env p (i + 1) sz (refined, st'))
      else (refined, st))"
  by pat_completeness auto
termination
  by (relation "measure (\<lambda>(env, p, i, sz, r). sz - i)") auto

text \<open>
  \<^verbatim>\<open>refine_links(Quadnode& p)\<close>: the children first, then the links of \<open>p\<close>.  The
  recursion follows a hierarchy that grows while it is traversed, so it runs on fuel.
\<close>

fun refine_links_node ::
  "nat \<Rightarrow> ('tri, 'mesh) env \<Rightarrow> ptr \<Rightarrow> ('tri, 'mesh) state
    \<Rightarrow> (bool \<times> ('tri, 'mesh) state) option" where
  "refine_links_node 0 env p st = None"
| "refine_links_node (Suc n) env p st =
     (case (if \<not> is_leaf (node_of st p)
            then fold (\<lambda>c r. case r of None \<Rightarrow> None
                        | Some (refined, s) \<Rightarrow>
                            (case refine_links_node n env c s of None \<Rightarrow> None
                             | Some (b, s') \<Rightarrow> Some (refined \<or> b, s')))
                   (child_ptrs st p) (Some (False, st))
            else Some (False, st)) of
        None \<Rightarrow> None
      | Some (refined, st1) \<Rightarrow>
          Some (refine_links_loop env p 0 (length (gathering_from (info_of st1 p)))
                  (refined, st1)))"

text \<open>\<^verbatim>\<open>refine_links()\<close>: all roots, in the order of \<^verbatim>\<open>nodes_\<close>.\<close>

definition refine_links ::
  "nat \<Rightarrow> ('tri, 'mesh) env \<Rightarrow> ('tri, 'mesh) state \<Rightarrow> (bool \<times> ('tri, 'mesh) state) option" where
  "refine_links n env st =
     fold (\<lambda>i r. case r of None \<Rightarrow> None
             | Some (refined, s) \<Rightarrow>
                 (case refine_links_node n env [i] s of None \<Rightarrow> None
                  | Some (b, s') \<Rightarrow> Some (refined \<or> b, s')))
       [0..<length (nodes st)] (Some (False, st))"

subsection \<open>\<^verbatim>\<open>compute\<close>\<close>

definition build_nodes :: "('tri, 'mesh) env \<Rightarrow> quadnode list" where
  "build_nodes env =
     map (\<lambda>i. let tri = tree_triangles env ! i in
            Quadnode \<lparr>root_tri_id = i, tri_id = i, face_id = i, area = tri_area env tri,
                      rad_gather = color_zero, rad_shoot = tri_emissive env tri,
                      emission = tri_emissive env tri, rho = tri_diffuse env tri,
                      parent = None, gathering_from = []\<rparr> [])
       [0..<length (tree_triangles env)]"

definition init_state :: "('tri, 'mesh) env \<Rightarrow> ('tri, 'mesh) state" where
  "init_state env =
     \<lparr>nodes = build_nodes env, subdivided_tris = [],
      mesh = build_mesh env (tree_triangles env)\<rparr>"

text \<open>
  The loops under \<^verbatim>\<open>// Refine nodes\<close>.  Beside the state they thread a log of the calls
  of \<^verbatim>\<open>refine\<close>, which the program itself does not keep: \<open>(p, q)\<close> is appended when
  \<^verbatim>\<open>refine(p, q)\<close> has returned.
\<close>

definition refine_nodes_inner ::
  "nat \<Rightarrow> ('tri, 'mesh) env \<Rightarrow> nat \<Rightarrow> nat \<Rightarrow> (('tri, 'mesh) state \<times> (ptr \<times> ptr) list) option
    \<Rightarrow> (('tri, 'mesh) state \<times> (ptr \<times> ptr) list) option" where
  "refine_nodes_inner k env n m r =
     (case r of None \<Rightarrow> None
      | Some (st, calls) \<Rightarrow>
          if root_tri_id (info_of st [n]) = root_tri_id (info_of st [m]) then Some (st, calls)
          else (case refine k env [n] [m] st of None \<Rightarrow> None
                | Some st' \<Rightarrow> Some (st', calls @ [([n], [m])])))"

definition refine_nodes_traced ::
  "nat \<Rightarrow> ('tri, 'mesh) env \<Rightarrow> ('tri, 'mesh) state
    \<Rightarrow> (('tri, 'mesh) state \<times> (ptr \<times> ptr) list) option" where
  "refine_nodes_traced k env st =
     fold (\<lambda>n. fold (refine_nodes_inner k env n) [0..<length (nodes st)])
       [0..<length (nodes st)] (Some (st, []))"

definition refine_nodes ::
  "nat \<Rightarrow> ('tri, 'mesh) env \<Rightarrow> ('tri, 'mesh) state \<Rightarrow> ('tri, 'mesh) state option" where
  "refine_nodes k env st = map_option fst (refine_nodes_traced k env st)"

text \<open>
  The loop \<^verbatim>\<open>while (!done)\<close>.  Nothing in the code bounds it, so it runs on fuel: \<open>n\<close>
  rounds at most, each link refinement pass with recursion depth \<open>k\<close> at most.
\<close>

fun solve_refine_loop ::
  "nat \<Rightarrow> nat \<Rightarrow> ('tri, 'mesh) env \<Rightarrow> ('tri, 'mesh) state \<Rightarrow> ('tri, 'mesh) state option" where
  "solve_refine_loop 0 k env st = None"
| "solve_refine_loop (Suc n) k env st =
     (case refine_links k env (solve_system env st) of
        None \<Rightarrow> None
      | Some (refined, st') \<Rightarrow> if refined then solve_refine_loop n k env st' else Some st')"

definition compute :: "nat \<Rightarrow> ('tri, 'mesh) env \<Rightarrow> ('tri, 'mesh) state option" where
  "compute k env =
     (case refine_nodes k env (init_state env) of
        None \<Rightarrow> None
      | Some st \<Rightarrow> solve_refine_loop k k env st)"

subsection \<open>Results\<close>

text \<open>
  \<^verbatim>\<open>triangles\<close>, \<^verbatim>\<open>triangle_index\<close> and \<^verbatim>\<open>radiosity\<close> run the same loop over an explicit
  stack and differ in what they do at a leaf.  The traversal is \<^verbatim>\<open>const\<close>, so a pointer
  on the stack is modelled by the node it points to; the top is the head of the list.
\<close>

function dfs_leaves :: "(quadnode \<Rightarrow> 'a \<Rightarrow> 'a) \<Rightarrow> quadnode list \<Rightarrow> 'a \<Rightarrow> 'a" where
  "dfs_leaves visit [] acc = acc"
| "dfs_leaves visit (p # stack) acc =
     (if is_leaf p then dfs_leaves visit stack (visit p acc)
      else dfs_leaves visit (rev (children p) @ stack) acc)"
  by pat_completeness auto
termination
proof (relation "measure (\<lambda>(visit, stack, acc). sum_list (map nnodes stack))", goal_cases)
  case (2 visit p stack acc)
  then show ?case by (cases p) simp
next
  case (3 visit p stack acc)
  then show ?case by (cases p) (simp add: rev_map[symmetric] sum_list_rev)
qed simp

definition triangles :: "('tri, 'mesh) env \<Rightarrow> ('tri, 'mesh) state \<Rightarrow> 'tri list" where
  "triangles env st =
     fold (\<lambda>root. dfs_leaves (\<lambda>p tris. tris @ [get_triangle env st (info p)]) [root])
       (nodes st) []"

text \<open>
  The \<^verbatim>\<open>unordered_map\<close> is an association list without repeated keys:
  \<^verbatim>\<open>emplace\<close> adds nothing when the key is there already, \<^verbatim>\<open>size()\<close> is the length.
\<close>

definition index_emplace :: "nat \<Rightarrow> nat \<Rightarrow> (nat \<times> nat) list \<Rightarrow> (nat \<times> nat) list" where
  "index_emplace k v index = (if map_of index k = None then index @ [(k, v)] else index)"

definition triangle_index :: "('tri, 'mesh) state \<Rightarrow> (nat \<times> nat) list" where
  "triangle_index st =
     fold (\<lambda>root. dfs_leaves (\<lambda>p index. index_emplace (tri_id (info p)) (length index) index)
                    [root])
       (nodes st) []"

definition radiosity :: "('tri, 'mesh) state \<Rightarrow> color list" where
  "radiosity st =
     fold (\<lambda>root. dfs_leaves (\<lambda>p rad. rad @ [(rad_shoot (info p))\<lparr>col_a := 1\<rparr>]) [root])
       (nodes st) []"

section \<open>A small scene\<close>

text \<open>
  Two unit triangles facing each other, the first one emitting red; triangles are named
  by numbers, the mesh carries no data.  The estimate of the form factor is \<open>1/3\<close>
  between root triangles and \<open>1/300\<close> as soon as a subdivided triangle takes part.
\<close>

definition ex_red :: color where
  "ex_red = \<lparr>col_r = 1, col_g = 0, col_b = 0, col_a = 0\<rparr>"

definition ex_grey :: color where
  "ex_grey = \<lparr>col_r = 1/2, col_g = 1/2, col_b = 1/2, col_a = 0\<rparr>"

definition ex_env :: "(nat, unit) env" where
  "ex_env = \<lparr>tree_triangles = [0, 1], F_eps = 1/10, A_eps = 1/5, BF_eps = 1/1000,
     max_iterations = 2,
     tri_area = (\<lambda>t. if t < 100 then 1 else 1/4),
     tri_emissive = (\<lambda>t. if t = 0 then ex_red else color_zero),
     tri_diffuse = (\<lambda>t. ex_grey),
     cos_theta = (\<lambda>p q. 1),
     solid_angle = (\<lambda>p q. if p < 100 \<and> q < 100 then 1 else 1/100),
     m_pi = 3,
     ff_oracle = (\<lambda>p q r. 1/4),
     build_mesh = (\<lambda>ts. ()),
     subdivide4 = (\<lambda>m f. ([4 * f + 10, 4 * f + 11, 4 * f + 12, 4 * f + 13], m)),
     face_triangle = (\<lambda>m t f. 100 + f)\<rparr>"

section \<open>Subdivision\<close>

lemma update_at_twice:
  "update_at g p (update_at f p F) = update_at (\<lambda>n. g (f n)) p F"
  by (induction f p F rule: update_at.induct) auto

lemma node_at_valid_nonempty: "node_at F p = Some n \<Longrightarrow> p \<noteq> []"
  by (cases p) auto

definition child_info :: "qinfo \<Rightarrow> ptr \<Rightarrow> nat list \<Rightarrow> nat \<Rightarrow> nat \<Rightarrow> qinfo" where
  "child_info pn p faces tid i =
     \<lparr>root_tri_id = root_tri_id pn, tri_id = tid + i, face_id = faces ! i,
      area = area pn / 4, rad_gather = color_zero, rad_shoot = rad_shoot pn,
      emission = emission pn, rho = rho pn, parent = Some p, gathering_from = []\<rparr>"

definition new_children :: "('tri, 'mesh) env \<Rightarrow> ('tri, 'mesh) state \<Rightarrow> ptr \<Rightarrow> quadnode list" where
  "new_children env st p =
     map (\<lambda>i. Quadnode (child_info (info_of st p) p
                 (fst (subdivide4 env (mesh st) (face_id (info_of st p))))
                 (next_triangle_id env st) i) [])
       [0..<4]"

definition new_tris :: "('tri, 'mesh) env \<Rightarrow> ('tri, 'mesh) state \<Rightarrow> ptr \<Rightarrow> 'tri list" where
  "new_tris env st p =
     (let (faces, mesh') = subdivide4 env (mesh st) (face_id (info_of st p))
      in map (\<lambda>i. face_triangle env mesh' (get_triangle env st (info_of st p)) (faces ! i)) [0..<4])"

lemma upt_4: "[0..<4] = [0, 1, 2, 3]"
  by (simp add: upt_rec)

lemma subdivide_child_eq:
  assumes "node_at (nodes st) p = Some n"
  shows "subdivide_child env p a4 tri faces i st =
     st\<lparr>nodes := update_at (\<lambda>m. Quadnode (info m) (children m @
              [Quadnode \<lparr>root_tri_id = root_tri_id (info n), tri_id = next_triangle_id env st,
                 face_id = faces ! i, area = a4, rad_gather = color_zero,
                 rad_shoot = rad_shoot (info n), emission = emission (info n), rho = rho (info n),
                 parent = Some p, gathering_from = []\<rparr> []])) p (nodes st),
        subdivided_tris := subdivided_tris st @ [face_triangle env (mesh st) tri (faces ! i)]\<rparr>"
  using assms by (simp add: subdivide_child_def info_of_def node_of_def Let_def)

lemma subdivide_success:
  assumes v: "node_at (nodes st) p = Some pn" and l: "is_leaf pn"
    and a: "\<not> area (info pn) / 4 < A_eps env"
  shows "subdivide env p st =
     (True, st\<lparr>nodes := update_at (\<lambda>n. Quadnode (info n) (children n @ new_children env st p)) p (nodes st),
               subdivided_tris := subdivided_tris st @ new_tris env st p,
               mesh := snd (subdivide4 env (mesh st) (face_id (info_of st p)))\<rparr>)"
proof -
  obtain faces mesh' where f: "subdivide4 env (mesh st) (face_id (info pn)) = (faces, mesh')"
    by (cases "subdivide4 env (mesh st) (face_id (info pn))")
  have gt: "\<And>i. get_triangle env (st\<lparr>mesh := mesh'\<rparr>) i = get_triangle env st i"
    by (simp add: get_triangle_def)
  show ?thesis
    using v l a f
    by (simp add: subdivide_def info_of_def node_of_def Let_def upt_4 subdivide_child_eq
        node_at_update_same update_at_twice new_children_def new_tris_def child_info_def
        next_triangle_id_def gt numeral_2_eq_2 numeral_3_eq_3)
qed

lemma subdivide_internal:
  "node_at (nodes st) p = Some pn \<Longrightarrow> \<not> is_leaf pn \<Longrightarrow> subdivide env p st = (True, st)"
  by (simp add: subdivide_def node_of_def)

lemma subdivide_refused:
  "node_at (nodes st) p = Some pn \<Longrightarrow> is_leaf pn \<Longrightarrow> area (info pn) / 4 < A_eps env
   \<Longrightarrow> subdivide env p st = (False, st)"
  by (simp add: subdivide_def node_of_def info_of_def)

lemma is_leaf_children: "is_leaf n \<longleftrightarrow> children n = []"
  by (simp add: is_leaf_def split: list.splits)

lemma length_new_children [simp]: "length (new_children env st p) = 4"
  by (simp add: new_children_def)

lemma new_children_props:
  "c \<in> set (new_children env st p) \<Longrightarrow>
     is_leaf c \<and> area (info c) = area (info_of st p) / 4
     \<and> root_tri_id (info c) = root_tri_id (info_of st p)
     \<and> rho (info c) = rho (info_of st p) \<and> emission (info c) = emission (info_of st p)
     \<and> rad_shoot (info c) = rad_shoot (info_of st p) \<and> rad_gather (info c) = color_zero
     \<and> parent (info c) = Some p \<and> gathering_from (info c) = []"
  by (auto simp: new_children_def child_info_def is_leaf_def)

lemma new_children_area_sum:
  "sum_list (map (\<lambda>c. area (info c)) (new_children env st p)) = area (info_of st p)"
  by (simp add: new_children_def child_info_def upt_4)

text \<open>
  C4.  \<^verbatim>\<open>subdivide(p)\<close> on a valid pointer \<open>p\<close>: success and no change when \<open>p\<close> is
  internal; failure and no change when \<open>p\<close> is a leaf with \<open>area / 4 < A_eps\<close>; otherwise
  success, and \<open>p\<close> keeps its fields and gets exactly four children, all leaves, each
  with a quarter of the area of \<open>p\<close>, the \<open>root_tri_id\<close>, \<open>rho\<close>, \<open>emission\<close> and current
  \<open>rad_shoot\<close> of \<open>p\<close>, \<open>rad_gather\<close> black and \<open>parent\<close> pointing to \<open>p\<close>; their areas
  add up to the area of \<open>p\<close>, and no node outside the subtree of \<open>p\<close> changes.
  (Areas are reals here: the sum is exact.)
\<close>

theorem subdivide_spec:
  assumes "node_at (nodes st) p = Some pn"
  shows "(\<not> is_leaf pn \<longrightarrow> subdivide env p st = (True, st)) \<and>
    (is_leaf pn \<and> area (info pn) / 4 < A_eps env \<longrightarrow> subdivide env p st = (False, st)) \<and>
    (is_leaf pn \<and> \<not> area (info pn) / 4 < A_eps env \<longrightarrow>
      (\<exists>st' cs. subdivide env p st = (True, st') \<and>
         node_at (nodes st') p = Some (Quadnode (info pn) cs) \<and> length cs = 4 \<and>
         (\<forall>c \<in> set cs. is_leaf c \<and> area (info c) = area (info pn) / 4
            \<and> root_tri_id (info c) = root_tri_id (info pn)
            \<and> rho (info c) = rho (info pn) \<and> emission (info c) = emission (info pn)
            \<and> rad_shoot (info c) = rad_shoot (info pn) \<and> rad_gather (info c) = color_zero
            \<and> parent (info c) = Some p) \<and>
         sum_list (map (\<lambda>c. area (info c)) cs) = area (info pn) \<and>
         (\<forall>x. \<not> prefix p x \<longrightarrow> obs_at (nodes st') x = obs_at (nodes st) x)))"
proof (intro conjI impI)
  show "subdivide env p st = (True, st)" if "\<not> is_leaf pn"
    using assms that by (rule subdivide_internal)
  show "subdivide env p st = (False, st)" if "is_leaf pn \<and> area (info pn) / 4 < A_eps env"
    using assms that by (simp add: subdivide_refused)
next
  assume h: "is_leaf pn \<and> \<not> area (info pn) / 4 < A_eps env"
  let ?cs = "new_children env st p"
  let ?st' = "snd (subdivide env p st)"
  have i: "info_of st p = info pn" using assms by (simp add: info_of_def node_of_def)
  have s: "subdivide env p st = (True, ?st')"
    and n: "nodes ?st' = update_at (\<lambda>n. Quadnode (info n) (children n @ ?cs)) p (nodes st)"
    using subdivide_success[OF assms, of env] h by simp_all
  have "node_at (nodes ?st') p = Some (Quadnode (info pn) ?cs)"
    using assms h by (simp add: n node_at_update_same is_leaf_children)
  moreover have "\<forall>x. \<not> prefix p x \<longrightarrow> obs_at (nodes ?st') x = obs_at (nodes st) x"
    by (simp add: n obs_at_update_other)
  ultimately show "\<exists>st' cs. subdivide env p st = (True, st') \<and>
         node_at (nodes st') p = Some (Quadnode (info pn) cs) \<and> length cs = 4 \<and>
         (\<forall>c \<in> set cs. is_leaf c \<and> area (info c) = area (info pn) / 4
            \<and> root_tri_id (info c) = root_tri_id (info pn)
            \<and> rho (info c) = rho (info pn) \<and> emission (info c) = emission (info pn)
            \<and> rad_shoot (info c) = rad_shoot (info pn) \<and> rad_gather (info c) = color_zero
            \<and> parent (info c) = Some p) \<and>
         sum_list (map (\<lambda>c. area (info c)) cs) = area (info pn) \<and>
         (\<forall>x. \<not> prefix p x \<longrightarrow> obs_at (nodes st') x = obs_at (nodes st) x)"
    using s new_children_props[of _ env st p] new_children_area_sum[of env st p] i
    by (intro exI[of _ ?st'] exI[of _ ?cs]) (simp del: One_nat_def)
qed

theorem subdivide_spec_witness:
  "(\<exists>pn. node_at (nodes (init_state ex_env)) [0] = Some pn \<and> is_leaf pn
        \<and> \<not> area (info pn) / 4 < A_eps ex_env
        \<and> (\<exists>st' cs. subdivide ex_env [0] (init_state ex_env) = (True, st') \<and>
             node_at (nodes st') [0] = Some (Quadnode (info pn) cs) \<and> length cs = 4 \<and>
             (\<forall>c \<in> set cs. is_leaf c \<and> area (info c) = area (info pn) / 4
                \<and> root_tri_id (info c) = root_tri_id (info pn)
                \<and> rho (info c) = rho (info pn) \<and> emission (info c) = emission (info pn)
                \<and> rad_shoot (info c) = rad_shoot (info pn) \<and> rad_gather (info c) = color_zero
                \<and> parent (info c) = Some [0]) \<and>
             sum_list (map (\<lambda>c. area (info c)) cs) = area (info pn)))
   \<and> (\<exists>pn. node_at (nodes (init_state ex_env)) [0] = Some pn \<and> is_leaf pn
        \<and> area (info pn) / 4 < A_eps (ex_env\<lparr>A_eps := 1\<rparr>)
        \<and> subdivide (ex_env\<lparr>A_eps := 1\<rparr>) [0] (init_state ex_env) = (False, init_state ex_env))
   \<and> (\<exists>pn st. node_at (nodes st) [0] = Some pn \<and> \<not> is_leaf pn
        \<and> subdivide ex_env [0] st = (True, st))"
proof -
  let ?pn = "Quadnode \<lparr>root_tri_id = 0, tri_id = 0, face_id = 0, area = 1,
               rad_gather = color_zero, rad_shoot = ex_red, emission = ex_red, rho = ex_grey,
               parent = None, gathering_from = []\<rparr> []"
  have v: "node_at (nodes (init_state ex_env)) [0] = Some ?pn"
    by (simp add: init_state_def build_nodes_def ex_env_def upt_rec)
  have l: "is_leaf ?pn" by (simp add: is_leaf_def)
  have a: "\<not> area (info ?pn) / 4 < A_eps ex_env" by (simp add: ex_env_def)
  have a': "area (info ?pn) / 4 < A_eps (ex_env\<lparr>A_eps := 1\<rparr>)" by simp
  let ?st = "\<lparr>nodes = [Quadnode (info ?pn) [?pn]], subdivided_tris = [], mesh = ()\<rparr> :: (nat, unit) state"
  have v2: "node_at (nodes ?st) [0] = Some (Quadnode (info ?pn) [?pn])" by simp
  have l2: "\<not> is_leaf (Quadnode (info ?pn) [?pn])" by (simp add: is_leaf_def)
  from subdivide_spec[OF v, of ex_env] l a
  have 1: "(\<exists>st' cs. subdivide ex_env [0] (init_state ex_env) = (True, st') \<and>
             node_at (nodes st') [0] = Some (Quadnode (info ?pn) cs) \<and> length cs = 4 \<and>
             (\<forall>c \<in> set cs. is_leaf c \<and> area (info c) = area (info ?pn) / 4
                \<and> root_tri_id (info c) = root_tri_id (info ?pn)
                \<and> rho (info c) = rho (info ?pn) \<and> emission (info c) = emission (info ?pn)
                \<and> rad_shoot (info c) = rad_shoot (info ?pn) \<and> rad_gather (info c) = color_zero
                \<and> parent (info c) = Some [0]) \<and>
             sum_list (map (\<lambda>c. area (info c)) cs) = area (info ?pn))"
    by blast
  from subdivide_spec[OF v, of "ex_env\<lparr>A_eps := 1\<rparr>"] l a'
  have 2: "subdivide (ex_env\<lparr>A_eps := 1\<rparr>) [0] (init_state ex_env) = (False, init_state ex_env)"
    by blast
  from subdivide_spec[OF v2, of ex_env] l2
  have 3: "subdivide ex_env [0] ?st = (True, ?st)" by blast
  show ?thesis
    using v l a a' 1 2 3 v2 l2 by blast
qed

lemma node_at_Nil [simp]: "node_at [] x = None"
proof (cases x)
  case (Cons i r)
  then show ?thesis by (cases r) auto
qed simp

lemma node_at_prefix_valid:
  "node_at F (p @ r) = Some m \<Longrightarrow> p \<noteq> [] \<Longrightarrow> \<exists>n. node_at F p = Some n"
  by (cases r; cases "node_at F p") (auto simp: node_at_append)

lemma obs_at_update_map_info:
  "obs_at (update_at (map_info g) p F) x =
     (if x = p then map_option (\<lambda>(i, k). (g i, k)) (obs_at F x) else obs_at F x)"
proof (cases "x = p")
  case True
  then show ?thesis
    by (cases "node_at F p") (auto simp: obs_at_def node_at_update_same obs_def map_info_def)
next
  case False
  show ?thesis
  proof (cases "prefix p x")
    case False
    then show ?thesis using \<open>x \<noteq> p\<close> by (simp add: obs_at_update_other)
  next
    case True
    then obtain r where x: "x = p @ r" and r: "r \<noteq> []" using \<open>x \<noteq> p\<close>
      by (auto simp: prefix_def)
    show ?thesis
    proof (cases "node_at F p")
      case None
      then show ?thesis using \<open>x \<noteq> p\<close> by (simp add: update_at_invalid)
    next
      case (Some n)
      then have "p \<noteq> []" by (rule node_at_valid_nonempty)
      then show ?thesis using Some x r \<open>x \<noteq> p\<close>
        by (simp add: obs_at_def node_at_update_same node_at_append map_info_def)
    qed
  qed
qed

lemma info_at_obs_at: "info_at F x = map_option fst (obs_at F x)"
  by (cases "node_at F x") (auto simp: info_at_def obs_at_def obs_def)

lemma info_at_update_map_info:
  "info_at (update_at (map_info g) p F) x =
     (if x = p then map_option g (info_at F x) else info_at F x)"
  by (cases "obs_at F x") (auto simp: info_at_obs_at obs_at_update_map_info)

lemma new_children_nth:
  "i < 4 \<Longrightarrow> new_children env st p ! i =
     Quadnode (child_info (info_of st p) p
                 (fst (subdivide4 env (mesh st) (face_id (info_of st p))))
                 (next_triangle_id env st) i) []"
  by (simp add: new_children_def del: upt_Suc)

lemma node_at_new_children:
  "node_at (new_children env st p) r =
     (if \<exists>i<4. r = [i] then Some (new_children env st p ! hd r) else None)"
proof (cases r)
  case (Cons i r')
  show ?thesis
  proof (cases r')
    case Nil
    then show ?thesis using Cons by auto
  next
    case (Cons j js)
    then show ?thesis using \<open>r = i # r'\<close> by (auto simp: new_children_nth)
  qed
qed simp

lemma obs_at_subdivide:
  assumes v: "node_at (nodes st) p = Some pn" and l: "is_leaf pn"
    and a: "\<not> area (info pn) / 4 < A_eps env"
  shows "obs_at (nodes (snd (subdivide env p st))) x =
     (if x = p then Some (info pn, 4)
      else if \<exists>i<4. x = p @ [i] then Some (info (new_children env st p ! last x), 0)
      else obs_at (nodes st) x)"
proof -
  let ?f = "\<lambda>n. Quadnode (info n) (children n @ new_children env st p)"
  have n: "nodes (snd (subdivide env p st)) = update_at ?f p (nodes st)"
    using subdivide_success[OF v l a] by simp
  have pne: "p \<noteq> []" using v by (rule node_at_valid_nonempty)
  have c: "children pn = []" using l by (simp add: is_leaf_children)
  show ?thesis
  proof (cases "prefix p x")
    case False
    then show ?thesis by (auto simp: n obs_at_update_other)
  next
    case True
    then obtain r where x: "x = p @ r" by (auto simp: prefix_def)
    show ?thesis
    proof (cases "r = []")
      case True
      then show ?thesis using x v c by (simp add: n obs_at_def node_at_update_same obs_def)
    next
      case False
      have "node_at (nodes st) x = None"
        using x False v c pne by (simp add: node_at_append)
      moreover have "node_at (update_at ?f p (nodes st)) x = node_at (new_children env st p) r"
        using x False v c by (simp add: node_at_update_below)
      ultimately show ?thesis using x False
        by (auto simp: n obs_at_def node_at_new_children obs_def new_children_nth)
    qed
  qed
qed

section \<open>Pairwise refinement: one round\<close>

definition oracle_link ::
  "('tri, 'mesh) env \<Rightarrow> ('tri, 'mesh) state \<Rightarrow> qinfo \<Rightarrow> ptr \<Rightarrow> qinfo \<Rightarrow> linknode" where
  "oracle_link env st pinfo q qinfo =
     \<lparr>link_q = q,
      form_factor = ff_oracle env (get_triangle env st pinfo) (get_triangle env st qinfo) (root_tri_id qinfo)\<rparr>"

definition link_added ::
  "('tri, 'mesh) state \<Rightarrow> ptr \<Rightarrow> linknode \<Rightarrow> ('tri, 'mesh) state \<Rightarrow> bool" where
  "link_added st p l st' \<longleftrightarrow>
     (\<forall>x. obs_at (nodes st') x =
        (if x = p
         then map_option (\<lambda>(i, k). (i\<lparr>gathering_from := gathering_from i @ [l]\<rparr>, k))
                (obs_at (nodes st) x)
         else obs_at (nodes st) x))
     \<and> subdivided_tris st' = subdivided_tris st \<and> mesh st' = mesh st"

definition no_link_added :: "('tri, 'mesh) state \<Rightarrow> ('tri, 'mesh) state \<Rightarrow> bool" where
  "no_link_added st st' \<longleftrightarrow>
     (\<forall>x. map_option gathering_from (info_at (nodes st') x) =
        (case info_at (nodes st) x of
           Some i \<Rightarrow> Some (gathering_from i)
         | None \<Rightarrow> if info_at (nodes st') x = None then None else Some []))"

lemma link_eq:
  "link env p q st =
     st\<lparr>nodes := update_at (map_info (\<lambda>n. n\<lparr>gathering_from := gathering_from n @
            [oracle_link env st (info_of st p) q (info_of st q)]\<rparr>)) p (nodes st)\<rparr>"
  by (simp add: link_def oracle_link_def Let_def)

lemma link_added_link:
  "link_added st p (oracle_link env st (info_of st p) q (info_of st q)) (link env p q st)"
  by (simp add: link_added_def link_eq obs_at_update_map_info)

lemma no_link_added_refl: "no_link_added st st"
  by (auto simp: no_link_added_def split: option.splits)

lemma new_children_links:
  "i < 4 \<Longrightarrow> gathering_from (info (new_children env st p ! i)) = []"
  by (simp add: new_children_nth child_info_def)

lemma no_link_added_subdivide:
  assumes v: "node_at (nodes st) p = Some pn"
  shows "no_link_added st (snd (subdivide env p st))"
proof (cases "is_leaf pn")
  case False
  then show ?thesis using v by (simp add: subdivide_internal no_link_added_refl)
next
  case True
  show ?thesis
  proof (cases "area (info pn) / 4 < A_eps env")
    case True
    then show ?thesis using v \<open>is_leaf pn\<close> by (simp add: subdivide_refused no_link_added_refl)
  next
    case False
    have pne: "p \<noteq> []" using v by (rule node_at_valid_nonempty)
    have c: "\<And>i. info_at (nodes st) (p @ [i]) = None"
      using v True pne by (simp add: info_at_def node_at_append is_leaf_children)
    have p: "info_at (nodes st) p = Some (info pn)" using v by (simp add: info_at_def)
    show ?thesis
      unfolding no_link_added_def info_at_obs_at obs_at_subdivide[OF v True False]
      using c p by (auto simp: info_at_obs_at new_children_links split: option.splits)
  qed
qed

lemma child_ptrs_eq:
  "node_at (nodes st) p = Some n \<Longrightarrow> child_ptrs st p = map (\<lambda>i. p @ [i]) [0..<length (children n)]"
  by (simp add: child_ptrs_def node_of_def)

lemma node_at_subdivide_same:
  assumes v: "node_at (nodes st) p = Some pn" and l: "is_leaf pn"
    and a: "\<not> area (info pn) / 4 < A_eps env"
  shows "node_at (nodes (snd (subdivide env p st))) p = Some (Quadnode (info pn) (new_children env st p))"
  using subdivide_success[OF v l a] v l
  by (simp add: node_at_update_same is_leaf_children)

lemma subdivide_children:
  assumes v: "node_at (nodes st) p = Some pn" and s: "length (children pn) \<in> {0, 4}"
    and b: "\<not> (is_leaf pn \<and> area (info pn) / 4 < A_eps env)"
  shows "child_ptrs (snd (subdivide env p st)) p = map (\<lambda>i. p @ [i]) [0..<4]"
proof (cases "is_leaf pn")
  case False
  then have "snd (subdivide env p st) = st" using v by (simp add: subdivide_internal)
  moreover have "length (children pn) = 4" using False s by (auto simp: is_leaf_children)
  ultimately show ?thesis using v by (simp add: child_ptrs_eq del: upt_Suc)
next
  case True
  then have a: "\<not> area (info pn) / 4 < A_eps env" using b by simp
  show ?thesis
    using node_at_subdivide_same[OF v True a] by (simp add: child_ptrs_eq del: upt_Suc)
qed

lemma subdivide_fst:
  "node_at (nodes st) p = Some pn \<Longrightarrow>
   fst (subdivide env p st) \<longleftrightarrow> \<not> (is_leaf pn \<and> area (info pn) / 4 < A_eps env)"
  by (auto simp: subdivide_def node_of_def info_of_def Let_def split: prod.splits)

lemma subdivide_cases:
  "node_at (nodes st) p = Some pn \<Longrightarrow>
   subdivide env p st =
     (if is_leaf pn \<and> area (info pn) / 4 < A_eps env then (False, st)
      else (True, snd (subdivide env p st)))"
  by (auto simp: subdivide_def node_of_def info_of_def Let_def split: prod.splits)

text \<open>
  C1.  One round of \<^verbatim>\<open>refine\<close> on a pair \<open>(p, q)\<close> of valid pointers.  If both
  estimates are below \<open>F_eps\<close>: nothing is pushed and the only change is one link appended
  to \<open>p\<close>, to \<open>q\<close> and with the form factor of the oracle.  Otherwise \<open>q\<close> is the side to
  subdivide when \<open>F_qp < F_pq\<close>, and \<open>p\<close> when not; if that side is a leaf under the area
  floor, the same link is appended and nothing is pushed; if not, the state is the one
  \<^verbatim>\<open>subdivide\<close> leaves, the four pairs of a child with the other node are pushed, and
  no node has a link it did not have.
\<close>

theorem refine_step_spec:
  assumes "node_at (nodes st) p = Some pn" and "node_at (nodes st) q = Some qn"
    and "length (children pn) \<in> {0, 4}" and "length (children qn) \<in> {0, 4}"
  shows "case refine_step env p q st of (st', pushed) \<Rightarrow>
     (let F_pq = estimate_form_factor env st (info pn) (info qn);
          F_qp = estimate_form_factor env st (info qn) (info pn);
          l = oracle_link env st (info pn) q (info qn)
      in if F_pq < F_eps env \<and> F_qp < F_eps env then pushed = [] \<and> link_added st p l st'
         else if F_qp < F_pq then
           (if is_leaf qn \<and> area (info qn) / 4 < A_eps env
            then pushed = [] \<and> link_added st p l st'
            else pushed = map (\<lambda>i. (p, q @ [i])) [0..<4] \<and> st' = snd (subdivide env q st)
                 \<and> no_link_added st st')
         else
           (if is_leaf pn \<and> area (info pn) / 4 < A_eps env
            then pushed = [] \<and> link_added st p l st'
            else pushed = map (\<lambda>i. (p @ [i], q)) [0..<4] \<and> st' = snd (subdivide env p st)
                 \<and> no_link_added st st'))"
proof -
  have ip: "info_of st p = info pn" and iq: "info_of st q = info qn"
    using assms by (simp_all add: info_of_def node_of_def)
  note la = link_added_link[of st p env q, unfolded ip iq]
  note cq = subdivide_cases[OF assms(2), of env] and cp = subdivide_cases[OF assms(1), of env]
  have sq: "\<not> (is_leaf qn \<and> area (info qn) / 4 < A_eps env) \<Longrightarrow>
      map (Pair p) (child_ptrs (snd (subdivide env q st)) q) = map (\<lambda>i. (p, q @ [i])) [0..<4]"
    using subdivide_children[OF assms(2) assms(4), of env] by (simp del: upt_Suc)
  have sp: "\<not> (is_leaf pn \<and> area (info pn) / 4 < A_eps env) \<Longrightarrow>
      map (\<lambda>c. (c, q)) (child_ptrs (snd (subdivide env p st)) p) = map (\<lambda>i. (p @ [i], q)) [0..<4]"
    using subdivide_children[OF assms(1) assms(3), of env] by (simp del: upt_Suc)
  note nq = no_link_added_subdivide[OF assms(2), of env]
    and np = no_link_added_subdivide[OF assms(1), of env]
  let ?Fpq = "estimate_form_factor env st (info pn) (info qn)"
  let ?Fqp = "estimate_form_factor env st (info qn) (info pn)"
  consider (a) "?Fpq < F_eps env \<and> ?Fqp < F_eps env"
    | (b) "\<not> (?Fpq < F_eps env \<and> ?Fqp < F_eps env)" "?Fqp < ?Fpq"
          "is_leaf qn \<and> area (info qn) / 4 < A_eps env"
    | (c) "\<not> (?Fpq < F_eps env \<and> ?Fqp < F_eps env)" "?Fqp < ?Fpq"
          "\<not> (is_leaf qn \<and> area (info qn) / 4 < A_eps env)"
    | (d) "\<not> (?Fpq < F_eps env \<and> ?Fqp < F_eps env)" "\<not> ?Fqp < ?Fpq"
          "is_leaf pn \<and> area (info pn) / 4 < A_eps env"
    | (e) "\<not> (?Fpq < F_eps env \<and> ?Fqp < F_eps env)" "\<not> ?Fqp < ?Fpq"
          "\<not> (is_leaf pn \<and> area (info pn) / 4 < A_eps env)"
    by blast
  then show ?thesis
  proof cases
    case a
    then show ?thesis using la by (simp add: refine_step_def ip iq Let_def)
  next
    case b
    have "refine_step env p q st = (link env p q st, [])"
      using b cq by (auto simp: refine_step_def ip iq Let_def)
    then show ?thesis using b la by (auto simp: Let_def)
  next
    case c
    obtain st2 where s: "subdivide env q st = (True, st2)"
      using subdivide_fst[OF assms(2), of env] c by (cases "subdivide env q st") auto
    then have "refine_step env p q st = (st2, map (Pair p) (child_ptrs st2 q))"
      using c by (auto simp: refine_step_def ip iq Let_def)
    then show ?thesis using c sq nq s by (auto simp: Let_def simp del: upt_Suc)
  next
    case d
    have "refine_step env p q st = (link env p q st, [])"
      using d cp by (auto simp: refine_step_def ip iq Let_def)
    then show ?thesis using d la by (auto simp: Let_def)
  next
    case e
    obtain st2 where s: "subdivide env p st = (True, st2)"
      using subdivide_fst[OF assms(1), of env] e by (cases "subdivide env p st") auto
    then have "refine_step env p q st = (st2, map (\<lambda>c. (c, q)) (child_ptrs st2 p))"
      using e by (auto simp: refine_step_def ip iq Let_def)
    then show ?thesis using e sp np s by (auto simp: Let_def simp del: upt_Suc)
  qed
qed

definition ex_root :: "nat \<Rightarrow> quadnode" where
  "ex_root i = Quadnode \<lparr>root_tri_id = i, tri_id = i, face_id = i, area = 1,
       rad_gather = color_zero, rad_shoot = (if i = 0 then ex_red else color_zero),
       emission = (if i = 0 then ex_red else color_zero), rho = ex_grey,
       parent = None, gathering_from = []\<rparr> []"

lemma ex_init_nodes: "nodes (init_state ex_env) = [ex_root 0, ex_root 1]"
  by (simp add: init_state_def build_nodes_def ex_env_def upt_rec ex_root_def)

theorem refine_step_spec_witness:
  "snd (refine_step ex_env [0] [1] (init_state ex_env)) = map (\<lambda>i. ([0] @ [i], [1])) [0..<4]
   \<and> no_link_added (init_state ex_env) (fst (refine_step ex_env [0] [1] (init_state ex_env)))
   \<and> snd (refine_step (ex_env\<lparr>A_eps := 1\<rparr>) [0] [1] (init_state ex_env)) = []
   \<and> link_added (init_state ex_env) [0] \<lparr>link_q = [1], form_factor = 1/4\<rparr>
        (fst (refine_step (ex_env\<lparr>A_eps := 1\<rparr>) [0] [1] (init_state ex_env)))
   \<and> snd (refine_step (ex_env\<lparr>F_eps := 1\<rparr>) [0] [1] (init_state ex_env)) = []
   \<and> link_added (init_state ex_env) [0] \<lparr>link_q = [1], form_factor = 1/4\<rparr>
        (fst (refine_step (ex_env\<lparr>F_eps := 1\<rparr>) [0] [1] (init_state ex_env)))"
proof -
  have v0: "node_at (nodes (init_state ex_env)) [0] = Some (ex_root 0)"
    and v1: "node_at (nodes (init_state ex_env)) [1] = Some (ex_root 1)"
    by (simp_all add: ex_init_nodes)
  have s: "length (children (ex_root 0)) \<in> {0, 4}" "length (children (ex_root 1)) \<in> {0, 4}"
    by (simp_all add: ex_root_def)
  have e: "estimate_form_factor env (init_state ex_env) (info (ex_root i)) (info (ex_root j)) = 1/3"
    if "i < 2" "j < 2" "tree_triangles env = [0, 1]" "cos_theta env = (\<lambda>p q. 1)"
      "solid_angle env = (\<lambda>p q. if p < 100 \<and> q < 100 then 1 else 1/100)" "m_pi env = 3"
    for i j and env :: "(nat, unit) env"
    using that by (auto simp: estimate_form_factor_def get_triangle_def is_root_def ex_root_def
        nth_Cons split: nat.splits)
  have o: "oracle_link env st x y z = \<lparr>link_q = y, form_factor = 1/4\<rparr>"
    if "ff_oracle env = (\<lambda>p q r. 1/4)" for env :: "(nat, unit) env" and st x y z
    using that by (simp add: oracle_link_def)
  have f: "tree_triangles ex_env = [0, 1]" "cos_theta ex_env = (\<lambda>p q. 1)"
      "solid_angle ex_env = (\<lambda>p q. if p < 100 \<and> q < 100 then 1 else 1/100)" "m_pi ex_env = 3"
      "ff_oracle ex_env = (\<lambda>p q r. 1/4)" "F_eps ex_env = 1/10" "A_eps ex_env = 1/5"
    by (simp_all add: ex_env_def)
  have l: "is_leaf (ex_root 0)" "area (info (ex_root 0)) = 1"
    by (simp_all add: ex_root_def is_leaf_def)
  have 1: "snd (refine_step ex_env [0] [1] (init_state ex_env)) = map (\<lambda>i. ([0] @ [i], [1])) [0..<4]
     \<and> no_link_added (init_state ex_env) (fst (refine_step ex_env [0] [1] (init_state ex_env)))"
    using refine_step_spec[OF v0 v1 s, of ex_env]
    by (simp add: e o f l Let_def split: prod.splits del: upt_Suc)
  have 2: "snd (refine_step (ex_env\<lparr>A_eps := 1\<rparr>) [0] [1] (init_state ex_env)) = []
     \<and> link_added (init_state ex_env) [0] \<lparr>link_q = [1], form_factor = 1/4\<rparr>
        (fst (refine_step (ex_env\<lparr>A_eps := 1\<rparr>) [0] [1] (init_state ex_env)))"
    using refine_step_spec[OF v0 v1 s, of "ex_env\<lparr>A_eps := 1\<rparr>"]
    by (simp add: e o f l Let_def split: prod.splits del: upt_Suc)
  have 3: "snd (refine_step (ex_env\<lparr>F_eps := 1\<rparr>) [0] [1] (init_state ex_env)) = []
     \<and> link_added (init_state ex_env) [0] \<lparr>link_q = [1], form_factor = 1/4\<rparr>
        (fst (refine_step (ex_env\<lparr>F_eps := 1\<rparr>) [0] [1] (init_state ex_env)))"
    using refine_step_spec[OF v0 v1 s, of "ex_env\<lparr>F_eps := 1\<rparr>"]
    by (simp add: e o f l Let_def split: prod.splits del: upt_Suc)
  show ?thesis using 1 2 3 by blast
qed

section \<open>Link refinement: one link\<close>

text \<open>
  \<open>relinked g F x\<close>: what can be read at \<open>x\<close> in \<open>F\<close>, with the links \<open>ls\<close> of the node at \<open>x\<close>
  replaced by \<open>g x ls\<close>.
\<close>

definition relinked ::
  "(ptr \<Rightarrow> linknode list \<Rightarrow> linknode list) \<Rightarrow> quadnode list \<Rightarrow> ptr \<Rightarrow> (qinfo \<times> nat) option" where
  "relinked g F x =
     map_option (\<lambda>(i, n). (i\<lparr>gathering_from := g x (gathering_from i)\<rparr>, n)) (obs_at F x)"

lemma info_of_valid: "node_at (nodes st) x = Some n \<Longrightarrow> info_of st x = info n"
  by (simp add: info_of_def node_of_def)

lemma info_of_obs_at: "obs_at (nodes st) x = Some (i, k) \<Longrightarrow> info_of st x = i"
  by (auto simp: obs_at_def obs_def info_of_def node_of_def)

lemma obs_at_valid: "node_at F x = Some n \<Longrightarrow> obs_at F x = Some (info n, length (children n))"
  by (simp add: obs_at_def obs_def)

lemma obs_at_None: "obs_at F x = None \<longleftrightarrow> node_at F x = None"
  by (simp add: obs_at_def)

lemma obs_at_link:
  "obs_at (nodes (link env c d st)) x =
     relinked (\<lambda>y ls. if y = c then ls @ [oracle_link env st (info_of st c) d (info_of st d)] else ls)
       (nodes st) x"
  by (cases "obs_at (nodes st) x") (auto simp: link_eq obs_at_update_map_info relinked_def)

lemma link_frame [simp]:
  "subdivided_tris (link env c d st) = subdivided_tris st" "mesh (link env c d st) = mesh st"
  by (simp_all add: link_eq)

lemma oracle_link_cong:
  "subdivided_tris st' = subdivided_tris st \<Longrightarrow> tri_id i' = tri_id i
   \<Longrightarrow> root_tri_id i' = root_tri_id i \<Longrightarrow> tri_id j' = tri_id j \<Longrightarrow> root_tri_id j' = root_tri_id j
   \<Longrightarrow> oracle_link env st' i' q j' = oracle_link env st i q j"
  by (simp add: oracle_link_def get_triangle_def is_root_def)

definition valid_ptr :: "('tri, 'mesh) state \<Rightarrow> ptr \<Rightarrow> bool" where
  "valid_ptr st x \<longleftrightarrow> node_at (nodes st) x \<noteq> None"

lemma valid_ptr_link [simp]: "valid_ptr (link env c d st) x = valid_ptr st x"
  unfolding valid_ptr_def obs_at_None[symmetric]
  by (cases "obs_at (nodes st) x") (auto simp: obs_at_link relinked_def)

lemma info_of_link:
  assumes "valid_ptr st x"
  shows "tri_id (info_of (link env c d st) x) = tri_id (info_of st x)"
    and "root_tri_id (info_of (link env c d st) x) = root_tri_id (info_of st x)"
proof -
  obtain i k where o: "obs_at (nodes st) x = Some (i, k)"
    using assms by (cases "obs_at (nodes st) x") (auto simp: obs_at_None valid_ptr_def)
  then obtain i' where o': "obs_at (nodes (link env c d st)) x = Some (i', k)"
      and t: "tri_id i' = tri_id i" "root_tri_id i' = root_tri_id i"
    by (auto simp: obs_at_link relinked_def)
  show "tri_id (info_of (link env c d st) x) = tri_id (info_of st x)"
    and "root_tri_id (info_of (link env c d st) x) = root_tri_id (info_of st x)"
    using info_of_obs_at[OF o] info_of_obs_at[OF o'] t by simp_all
qed

lemma oracle_link_link:
  "valid_ptr st a \<Longrightarrow> valid_ptr st b \<Longrightarrow>
   oracle_link env (link env c d st) (info_of (link env c d st) a) b (info_of (link env c d st) b)
     = oracle_link env st (info_of st a) b (info_of st b)"
  by (rule oracle_link_cong) (simp_all add: info_of_link)

lemma obs_at_fold_link:
  assumes "\<forall>(c, d) \<in> set cs. valid_ptr st c \<and> valid_ptr st d"
  shows "obs_at (nodes (fold (\<lambda>(c, d). link env c d) cs st)) x =
     relinked (\<lambda>y ls. ls @ map (\<lambda>(c, d). oracle_link env st (info_of st c) d (info_of st d))
                             (filter (\<lambda>(c, d). c = y) cs))
       (nodes st) x
     \<and> subdivided_tris (fold (\<lambda>(c, d). link env c d) cs st) = subdivided_tris st
     \<and> mesh (fold (\<lambda>(c, d). link env c d) cs st) = mesh st"
  using assms
proof (induction cs arbitrary: st)
  case Nil
  then show ?case by (cases "obs_at (nodes st) x") (auto simp: relinked_def)
next
  case (Cons cd cs)
  obtain c d where cd: "cd = (c, d)" by (cases cd)
  let ?st1 = "link env c d st"
  have v: "\<forall>(a, b) \<in> set cs. valid_ptr ?st1 a \<and> valid_ptr ?st1 b"
    using Cons.prems by auto
  have o: "map (\<lambda>(a, b). oracle_link env ?st1 (info_of ?st1 a) b (info_of ?st1 b)) zs
         = map (\<lambda>(a, b). oracle_link env st (info_of st a) b (info_of st b)) zs"
    if "set zs \<subseteq> set cs" for zs
  proof (intro map_cong refl)
    fix z assume "z \<in> set zs"
    then have "z \<in> set cs" using that by auto
    then have "valid_ptr st (fst z)" "valid_ptr st (snd z)" using Cons.prems by auto
    then show "(case z of (a, b) \<Rightarrow> oracle_link env ?st1 (info_of ?st1 a) b (info_of ?st1 b))
        = (case z of (a, b) \<Rightarrow> oracle_link env st (info_of st a) b (info_of st b))"
      by (cases z) (simp add: oracle_link_link)
  qed
  show ?case
    using Cons.IH[OF v]
    by (cases "obs_at (nodes st) x") (auto simp: cd obs_at_link relinked_def o)
qed

lemma obs_at_erase_link:
  "obs_at (nodes (erase_link p i st)) x =
     relinked (\<lambda>y ls. if y = p then take i ls @ drop (Suc i) ls else ls) (nodes st) x"
  by (cases "obs_at (nodes st) x") (auto simp: erase_link_def obs_at_update_map_info relinked_def)

lemma relinked_relinked:
  "(\<And>x. obs_at F' x = relinked g F x) \<Longrightarrow>
   map_option (\<lambda>(i, n). (i\<lparr>gathering_from := h x (gathering_from i)\<rparr>, n)) (obs_at F' x)
     = relinked (\<lambda>y ls. h y (g y ls)) F x"
  by (cases "obs_at F x") (auto simp: relinked_def)

lemma valid_ptr_subdivide:
  assumes v: "node_at (nodes st) p = Some pn" and x: "valid_ptr st x"
  shows "valid_ptr (snd (subdivide env p st)) x"
proof (cases "is_leaf pn \<and> \<not> area (info pn) / 4 < A_eps env")
  case True
  then show ?thesis using x obs_at_subdivide[OF v, of env x]
    unfolding valid_ptr_def obs_at_None[symmetric] by (auto split: if_splits)
next
  case False
  then have "snd (subdivide env p st) = st"
    using v by (cases "is_leaf pn") (auto simp: subdivide_internal subdivide_refused)
  then show ?thesis using x by simp
qed

lemma children_valid_subdivide:
  assumes v: "node_at (nodes st) p = Some pn" and s: "length (children pn) \<in> {0, 4}"
    and b: "\<not> (is_leaf pn \<and> area (info pn) / 4 < A_eps env)" and k: "k < 4"
  shows "valid_ptr (snd (subdivide env p st)) (p @ [k])"
proof (cases "is_leaf pn")
  case True
  then have a: "\<not> area (info pn) / 4 < A_eps env" using b by simp
  show ?thesis using obs_at_subdivide[OF v True a, of "p @ [k]"] k
    unfolding valid_ptr_def obs_at_None[symmetric] by auto
next
  case False
  then have "snd (subdivide env p st) = st" using v by (simp add: subdivide_internal)
  moreover have "length (children pn) = 4" using False s by (auto simp: is_leaf_children)
  moreover have "p \<noteq> []" using v by (rule node_at_valid_nonempty)
  ultimately show ?thesis using v k by (simp add: valid_ptr_def node_at_append)
qed

lemma filter_receivers:
  "filter (\<lambda>(c, d). c = y) (map (\<lambda>k. (p @ [k], q)) [0..<n]) =
     (if y \<in> set (map (\<lambda>k. p @ [k]) [0..<n]) then [(y, q)] else [])"
  by (induction n) auto

lemma filter_shooters:
  "filter (\<lambda>(c, d). c = y) (map (\<lambda>k. (p, f k)) ks) = (if y = p then map (\<lambda>k. (p, f k)) ks else [])"
  by (induction ks) auto

lemma subdivide_frame_refused:
  "node_at (nodes st) p = Some pn \<Longrightarrow> is_leaf pn \<and> area (info pn) / 4 < A_eps env
   \<Longrightarrow> subdivide env p st = (False, st)"
  by (simp add: subdivide_refused)

lemma refine_link_receiver:
  assumes vp: "node_at (nodes st) p = Some pn" and vq: "valid_ptr st q"
    and sp: "length (children pn) \<in> {0, 4}"
    and b: "\<not> (is_leaf pn \<and> area (info pn) / 4 < A_eps env)"
    and st1: "st1 = snd (subdivide env p st)"
    and st': "st' = fold (\<lambda>c. link env c q) (child_ptrs st1 p) st1"
  shows "obs_at (nodes st') x =
     relinked (\<lambda>y ks. if y \<in> set (map (\<lambda>k. p @ [k]) [0..<4])
                      then ks @ [oracle_link env st1 (info_of st1 y) q (info_of st1 q)] else ks)
       (nodes st1) x"
    and "subdivided_tris st' = subdivided_tris st1" and "mesh st' = mesh st1"
proof -
  let ?cs = "map (\<lambda>k. (p @ [k], q)) [0..<4]"
  have c: "child_ptrs st1 p = map (\<lambda>k. p @ [k]) [0..<4]"
    unfolding st1 using vp sp b by (rule subdivide_children)
  have f: "st' = fold (\<lambda>(c, d). link env c d) ?cs st1"
    unfolding st' c by (simp add: fold_map comp_def del: upt_Suc)
  have v: "\<forall>(c, d) \<in> set ?cs. valid_ptr st1 c \<and> valid_ptr st1 d"
    using children_valid_subdivide[OF vp sp b] valid_ptr_subdivide[OF vp vq]
    by (auto simp: st1 simp del: upt_Suc)
  note r = obs_at_fold_link[OF v, of env x, folded f]
  show "subdivided_tris st' = subdivided_tris st1" and "mesh st' = mesh st1"
    using r by simp_all
  have "obs_at (nodes st') x = relinked (\<lambda>y ls. ls @ map (\<lambda>(c, d). oracle_link env st1 (info_of st1 c) d (info_of st1 d))
                             (filter (\<lambda>(c, d). c = y) ?cs)) (nodes st1) x"
    using r by simp
  also have "\<dots> = relinked (\<lambda>y ks. if y \<in> set (map (\<lambda>k. p @ [k]) [0..<4])
                      then ks @ [oracle_link env st1 (info_of st1 y) q (info_of st1 q)] else ks)
       (nodes st1) x"
    unfolding filter_receivers
    by (cases "obs_at (nodes st1) x") (auto simp: relinked_def simp del: upt_Suc)
  finally show "obs_at (nodes st') x =
     relinked (\<lambda>y ks. if y \<in> set (map (\<lambda>k. p @ [k]) [0..<4])
                      then ks @ [oracle_link env st1 (info_of st1 y) q (info_of st1 q)] else ks)
       (nodes st1) x" .
qed

lemma refine_link_shooter:
  assumes vq: "node_at (nodes st) q = Some qn" and vp: "valid_ptr st p"
    and sq: "length (children qn) \<in> {0, 4}"
    and b: "\<not> (is_leaf qn \<and> area (info qn) / 4 < A_eps env)"
    and st1: "st1 = snd (subdivide env q st)"
    and st': "st' = fold (\<lambda>c. link env p c) (child_ptrs st1 q) st1"
  shows "obs_at (nodes st') x =
     relinked (\<lambda>y ks. if y = p
                      then ks @ map (\<lambda>k. oracle_link env st1 (info_of st1 p) (q @ [k])
                                           (info_of st1 (q @ [k]))) [0..<4]
                      else ks)
       (nodes st1) x"
    and "subdivided_tris st' = subdivided_tris st1" and "mesh st' = mesh st1"
proof -
  let ?cs = "map (\<lambda>k. (p, q @ [k])) [0..<4]"
  have c: "child_ptrs st1 q = map (\<lambda>k. q @ [k]) [0..<4]"
    unfolding st1 using vq sq b by (rule subdivide_children)
  have f: "st' = fold (\<lambda>(c, d). link env c d) ?cs st1"
    unfolding st' c by (simp add: fold_map comp_def del: upt_Suc)
  have v: "\<forall>(c, d) \<in> set ?cs. valid_ptr st1 c \<and> valid_ptr st1 d"
    using children_valid_subdivide[OF vq sq b] valid_ptr_subdivide[OF vq vp]
    by (auto simp: st1 simp del: upt_Suc)
  note r = obs_at_fold_link[OF v, of env x, folded f]
  show "subdivided_tris st' = subdivided_tris st1" and "mesh st' = mesh st1"
    using r by simp_all
  have "obs_at (nodes st') x = relinked (\<lambda>y ls. ls @ map (\<lambda>(c, d). oracle_link env st1 (info_of st1 c) d (info_of st1 d))
                             (filter (\<lambda>(c, d). c = y) ?cs)) (nodes st1) x"
    using r by simp
  also have "\<dots> = relinked (\<lambda>y ks. if y = p
                      then ks @ map (\<lambda>k. oracle_link env st1 (info_of st1 p) (q @ [k])
                                           (info_of st1 (q @ [k]))) [0..<4]
                      else ks)
       (nodes st1) x"
    unfolding filter_shooters
    by (cases "obs_at (nodes st1) x") (auto simp: relinked_def comp_def simp del: upt_Suc)
  finally show "obs_at (nodes st') x =
     relinked (\<lambda>y ks. if y = p
                      then ks @ map (\<lambda>k. oracle_link env st1 (info_of st1 p) (q @ [k])
                                           (info_of st1 (q @ [k]))) [0..<4]
                      else ks)
       (nodes st1) x" .
qed

lemma info_kept_subdivide:
  assumes v: "node_at (nodes st) p = Some pn" and x: "node_at (nodes st) x = Some n"
  shows "\<exists>k. obs_at (nodes (snd (subdivide env p st))) x = Some (info n, k)"
proof (cases "is_leaf pn \<and> \<not> area (info pn) / 4 < A_eps env")
  case True
  have pne: "p \<noteq> []" using v by (rule node_at_valid_nonempty)
  have "x \<noteq> p @ [k]" for k
    using v x True pne by (auto simp: node_at_append is_leaf_children)
  then show ?thesis
    using obs_at_subdivide[OF v, of env x] True v x by (auto simp: obs_at_valid)
next
  case False
  then have "snd (subdivide env p st) = st"
    using v by (cases "is_leaf pn") (auto simp: subdivide_internal subdivide_refused)
  then show ?thesis using x by (simp add: obs_at_valid)
qed

lemma refine_link_eq:
  assumes vp: "node_at (nodes st) p = Some pn" and vq: "node_at (nodes st) (link_q l) = Some qn"
  shows "refine_link env p l st =
     (let q = link_q l;
          tri_p = get_triangle env st (info pn);
          tri_q = get_triangle env st (info qn);
          e = color_scale (color_scale (rad_shoot (info qn)) (tri_area env tri_q)) (form_factor l)
      in if BF_eps env < col_r e \<or> BF_eps env < col_g e \<or> BF_eps env < col_b e
         then if form_factor l < form_factor l * tri_area env tri_p / tri_area env tri_q
              then if is_leaf pn \<and> area (info pn) / 4 < A_eps env then (False, st)
                   else (True, fold (\<lambda>c. link env c q)
                                 (child_ptrs (snd (subdivide env p st)) p) (snd (subdivide env p st)))
              else if is_leaf qn \<and> area (info qn) / 4 < A_eps env then (False, st)
                   else (True, fold (\<lambda>c. link env p c)
                                 (child_ptrs (snd (subdivide env q st)) q) (snd (subdivide env q st)))
         else (False, st))"
proof -
  have ip: "info_of st p = info pn" and iq: "info_of st (link_q l) = info qn"
    using assms by (simp_all add: info_of_valid)
  have cp: "subdivide env p st = (if is_leaf pn \<and> area (info pn) / 4 < A_eps env then (False, st)
      else (True, snd (subdivide env p st)))"
    using vp by (rule subdivide_cases)
  have cq: "subdivide env (link_q l) st = (if is_leaf qn \<and> area (info qn) / 4 < A_eps env then (False, st)
      else (True, snd (subdivide env (link_q l) st)))"
    using vq by (rule subdivide_cases)
  show ?thesis
    unfolding refine_link_def Let_def ip iq
    by (subst cp, subst cq) (auto simp: Let_def)
qed

text \<open>
  C3.  A link \<open>l\<close> at position \<open>i\<close> of the links of \<open>p\<close>, with shooter \<open>q\<close>.
  \<^verbatim>\<open>refine_link\<close> reports a refinement exactly when a channel (r, g or b) of
  \<open>q.rad_shoot * area(q) * form_factor\<close> exceeds \<open>BF_eps\<close> and the chosen side (\<open>p\<close> when
  \<open>form_factor < form_factor * area(p) / area(q)\<close>, else \<open>q\<close>) is not a leaf under the area
  floor.  When it reports none, the state is unchanged, so the link is kept.  When it
  reports one, then after the \<^verbatim>\<open>erase\<close> of the loop the state is the one \<^verbatim>\<open>subdivide\<close>
  left with these links changed: \<open>p\<close> has lost the link at position \<open>i\<close>, and either each
  of the four children of \<open>p\<close> has one more link, to \<open>q\<close>, or \<open>p\<close> has four more links, to the
  four children of \<open>q\<close>; each with the form factor of the oracle.
\<close>

theorem refine_link_spec:
  assumes "node_at (nodes st) p = Some pn" and "node_at (nodes st) (link_q l) = Some qn"
    and "length (children pn) \<in> {0, 4}" and "length (children qn) \<in> {0, 4}"
    and "i < length (gathering_from (info pn))" and "l = gathering_from (info pn) ! i"
  shows "let q = link_q l;
             tri_p = get_triangle env st (info pn);
             tri_q = get_triangle env st (info qn);
             e = color_scale (color_scale (rad_shoot (info qn)) (tri_area env tri_q)) (form_factor l);
             exceeds = (BF_eps env < col_r e \<or> BF_eps env < col_g e \<or> BF_eps env < col_b e);
             side_p = (form_factor l < form_factor l * tri_area env tri_p / tri_area env tri_q);
             refused = (if side_p then is_leaf pn \<and> area (info pn) / 4 < A_eps env
                        else is_leaf qn \<and> area (info qn) / 4 < A_eps env);
             st1 = snd (subdivide env (if side_p then p else q) st)
         in case refine_link env p l st of (b, st') \<Rightarrow>
              (b \<longleftrightarrow> exceeds \<and> \<not> refused) \<and>
              (\<not> b \<longrightarrow> st' = st) \<and>
              (b \<longrightarrow> subdivided_tris st' = subdivided_tris st1 \<and> mesh st' = mesh st1 \<and>
                 (\<forall>x. obs_at (nodes (erase_link p i st')) x =
                    relinked (\<lambda>y ks.
                        if side_p then
                          (if y = p then take i ks @ drop (Suc i) ks
                           else if y \<in> set (map (\<lambda>k. p @ [k]) [0..<4])
                           then ks @ [oracle_link env st1 (info_of st1 y) q (info_of st1 q)]
                           else ks)
                        else
                          (if y = p
                           then take i ks @ drop (Suc i) ks @
                                map (\<lambda>k. oracle_link env st1 (info_of st1 p) (q @ [k])
                                            (info_of st1 (q @ [k]))) [0..<4]
                           else ks))
                      (nodes st1) x))"
proof -
  let ?q = "link_q l"
  let ?tp = "get_triangle env st (info pn)" and ?tq = "get_triangle env st (info qn)"
  let ?e = "color_scale (color_scale (rad_shoot (info qn)) (tri_area env ?tq)) (form_factor l)"
  let ?ex = "BF_eps env < col_r ?e \<or> BF_eps env < col_g ?e \<or> BF_eps env < col_b ?e"
  let ?sp = "form_factor l < form_factor l * tri_area env ?tp / tri_area env ?tq"
  note eq = refine_link_eq[OF assms(1,2), of env, unfolded Let_def]
  have vp: "valid_ptr st p" and vq: "valid_ptr st ?q"
    using assms(1,2) by (simp_all add: valid_ptr_def)
  consider (keep) "\<not> ?ex \<or> (?sp \<and> is_leaf pn \<and> area (info pn) / 4 < A_eps env)
        \<or> (\<not> ?sp \<and> is_leaf qn \<and> area (info qn) / 4 < A_eps env)"
    | (recv) "?ex" "?sp" "\<not> (is_leaf pn \<and> area (info pn) / 4 < A_eps env)"
    | (shoot) "?ex" "\<not> ?sp" "\<not> (is_leaf qn \<and> area (info qn) / 4 < A_eps env)"
    by blast
  then show ?thesis
  proof cases
    case keep
    then have "refine_link env p l st = (False, st)" unfolding eq by auto
    then show ?thesis using keep by (auto simp: Let_def)
  next
    case recv
    let ?st1 = "snd (subdivide env p st)"
    let ?st' = "fold (\<lambda>c. link env c ?q) (child_ptrs ?st1 p) ?st1"
    have r: "refine_link env p l st = (True, ?st')" unfolding eq using recv by auto
    note o = refine_link_receiver[OF assms(1) vq assms(3) recv(3) refl refl]
    have pc: "p \<notin> set (map (\<lambda>k. p @ [k]) [0..<4])" by auto
    have "obs_at (nodes (erase_link p i ?st')) x =
        relinked (\<lambda>y ks. if y = p then take i ks @ drop (Suc i) ks
                   else if y \<in> set (map (\<lambda>k. p @ [k]) [0..<4])
                   then ks @ [oracle_link env ?st1 (info_of ?st1 y) ?q (info_of ?st1 ?q)]
                   else ks) (nodes ?st1) x" for x
      unfolding obs_at_erase_link relinked_def[of _ "nodes ?st'"]
      by (subst relinked_relinked[OF o(1)])
         (rule arg_cong[where f = "\<lambda>g. relinked g (nodes ?st1) x"], intro ext,
          use pc in \<open>auto simp del: upt_Suc\<close>)
    then show ?thesis using recv r o(2,3) by (simp add: Let_def del: upt_Suc)
  next
    case shoot
    let ?st1 = "snd (subdivide env ?q st)"
    let ?st' = "fold (\<lambda>c. link env p c) (child_ptrs ?st1 ?q) ?st1"
    let ?new = "map (\<lambda>k. oracle_link env ?st1 (info_of ?st1 p) (?q @ [k]) (info_of ?st1 (?q @ [k]))) [0..<4]"
    have r: "refine_link env p l st = (True, ?st')" unfolding eq using shoot by auto
    note o = refine_link_shooter[OF assms(2) vp assms(4) shoot(3) refl refl]
    have p1: "\<exists>k. obs_at (nodes ?st1) p = Some (info pn, k)"
      using assms(2,1) by (rule info_kept_subdivide)
    have "obs_at (nodes (erase_link p i ?st')) x =
        relinked (\<lambda>y ks. if y = p then take i ks @ drop (Suc i) ks @ ?new else ks) (nodes ?st1) x" for x
    proof (cases "x = p")
      case False
      then show ?thesis
        unfolding obs_at_erase_link relinked_def[of _ "nodes ?st'"]
        by (subst relinked_relinked[OF o(1)]) (simp add: relinked_def del: upt_Suc)
    next
      case True
      then show ?thesis
        unfolding obs_at_erase_link relinked_def[of _ "nodes ?st'"]
        using p1 assms(5)
        by (subst relinked_relinked[OF o(1)]) (auto simp: relinked_def simp del: upt_Suc)
    qed
    then show ?thesis using shoot r o(2,3) by (simp add: Let_def del: upt_Suc)
  qed
qed

definition ex_link :: linknode where
  "ex_link = \<lparr>link_q = [1], form_factor = 1/4\<rparr>"

definition ex_receiver :: quadnode where
  "ex_receiver = map_info (\<lambda>i. i\<lparr>gathering_from := [ex_link]\<rparr>) (ex_root 0)"

definition ex_shooter :: quadnode where
  "ex_shooter = map_info (\<lambda>i. i\<lparr>rad_shoot := ex_red\<rparr>) (ex_root 1)"

definition ex_linked :: "(nat, unit) state" where
  "ex_linked = \<lparr>nodes = [ex_receiver, ex_shooter], subdivided_tris = [], mesh = ()\<rparr>"

theorem refine_link_spec_witness:
  "refine_link (ex_env\<lparr>BF_eps := 1\<rparr>) [0] ex_link ex_linked = (False, ex_linked)
   \<and> refine_link (ex_env\<lparr>A_eps := 1\<rparr>) [0] ex_link ex_linked = (False, ex_linked)
   \<and> fst (refine_link ex_env [0] ex_link ex_linked)
   \<and> (\<forall>x. obs_at (nodes (erase_link [0] 0 (snd (refine_link ex_env [0] ex_link ex_linked)))) x =
         relinked (\<lambda>y ks. if y = [0]
              then take 0 ks @ drop (Suc 0) ks @
                   map (\<lambda>k. oracle_link ex_env (snd (subdivide ex_env [1] ex_linked))
                          (info_of (snd (subdivide ex_env [1] ex_linked)) [0]) ([1] @ [k])
                          (info_of (snd (subdivide ex_env [1] ex_linked)) ([1] @ [k]))) [0..<4]
              else ks)
           (nodes (snd (subdivide ex_env [1] ex_linked))) x)"
proof -
  let ?p = ex_receiver
  let ?q = ex_shooter
  have v0: "node_at (nodes ex_linked) [0] = Some ?p"
    and v1: "node_at (nodes ex_linked) (link_q ex_link) = Some ?q"
    by (simp_all add: ex_linked_def ex_link_def)
  have s: "length (children ?p) \<in> {0, 4}" "length (children ?q) \<in> {0, 4}"
    by (simp_all add: ex_root_def map_info_def ex_receiver_def ex_shooter_def)
  have i: "0 < length (gathering_from (info ?p))" and l: "ex_link = gathering_from (info ?p) ! 0"
    by (simp_all add: map_info_def ex_receiver_def)
  have g: "get_triangle env ex_linked (info ?p) = 0" "get_triangle env ex_linked (info ?q) = 1"
    if "tree_triangles env = [0, 1]" for env :: "(nat, unit) env"
    using that by (simp_all add: get_triangle_def is_root_def map_info_def ex_root_def
        ex_receiver_def ex_shooter_def)
  have f: "tree_triangles ex_env = [0, 1]" "tri_area ex_env 0 = 1" "tri_area ex_env (Suc 0) = 1"
      "BF_eps ex_env = 1/1000" "A_eps ex_env = 1/5"
    by (simp_all add: ex_env_def)
  have q: "rad_shoot (info ?q) = ex_red" "is_leaf ?q" "area (info ?q) = 1" "link_q ex_link = [1]"
      "form_factor ex_link = 1/4"
    by (simp_all add: map_info_def ex_root_def is_leaf_def ex_link_def ex_shooter_def)
  have c: "col_r (color_scale (color_scale ex_red 1) (1/4)) = 1/4"
      "col_g (color_scale (color_scale ex_red 1) (1/4)) = 0"
      "col_b (color_scale (color_scale ex_red 1) (1/4)) = 0"
    by (simp_all add: color_scale_def ex_red_def)
  have 1: "refine_link (ex_env\<lparr>BF_eps := 1\<rparr>) [0] ex_link ex_linked = (False, ex_linked)"
    using refine_link_spec[OF v0 v1 s i l, of "ex_env\<lparr>BF_eps := 1\<rparr>"]
    by (simp add: g f q c Let_def split: prod.splits del: upt_Suc cong: if_cong)
  have 2: "refine_link (ex_env\<lparr>A_eps := 1\<rparr>) [0] ex_link ex_linked = (False, ex_linked)"
    using refine_link_spec[OF v0 v1 s i l, of "ex_env\<lparr>A_eps := 1\<rparr>"]
    by (simp add: g f q c Let_def split: prod.splits del: upt_Suc cong: if_cong)
  have 3: "fst (refine_link ex_env [0] ex_link ex_linked) \<and>
     (\<forall>x. obs_at (nodes (erase_link [0] 0 (snd (refine_link ex_env [0] ex_link ex_linked)))) x =
         relinked (\<lambda>y ks. if y = [0]
              then take 0 ks @ drop (Suc 0) ks @
                   map (\<lambda>k. oracle_link ex_env (snd (subdivide ex_env [1] ex_linked))
                          (info_of (snd (subdivide ex_env [1] ex_linked)) [0]) ([1] @ [k])
                          (info_of (snd (subdivide ex_env [1] ex_linked)) ([1] @ [k]))) [0..<4]
              else ks)
           (nodes (snd (subdivide ex_env [1] ex_linked))) x)"
    using refine_link_spec[OF v0 v1 s i l, of ex_env]
    by (simp add: g f q c Let_def split: prod.splits del: upt_Suc cong: if_cong)
  show ?thesis using 1 2 3 by blast
qed

section \<open>Link refinement: the pass over the links of one node\<close>

text \<open>
  The loop of \<^verbatim>\<open>refine_links(Quadnode& p)\<close> once more, with a log of the links handed to
  \<^verbatim>\<open>refine_link\<close>, in this order.  The program keeps no such log.
\<close>

function refine_links_loop_traced ::
  "('tri, 'mesh) env \<Rightarrow> ptr \<Rightarrow> nat \<Rightarrow> nat \<Rightarrow> bool \<times> ('tri, 'mesh) state
    \<Rightarrow> linknode list \<times> bool \<times> ('tri, 'mesh) state" where
  "refine_links_loop_traced env p i sz (refined, st) =
     (if i < sz then
        let l = gathering_from (info_of st p) ! i in
        (case refine_link env p l st of
           (True, st') \<Rightarrow>
             (case refine_links_loop_traced env p i (sz - 1) (True, erase_link p i st') of
                (examined, r) \<Rightarrow> (l # examined, r))
         | (False, st') \<Rightarrow>
             (case refine_links_loop_traced env p (i + 1) sz (refined, st') of
                (examined, r) \<Rightarrow> (l # examined, r)))
      else ([], refined, st))"
  by pat_completeness auto
termination
  by (relation "measure (\<lambda>(env, p, i, sz, r). sz - i)") auto

declare refine_links_loop_traced.simps [simp del]
declare refine_links_loop.simps [simp del]

lemma refine_links_loop_traced_snd:
  "snd (refine_links_loop_traced env p i sz r) = refine_links_loop env p i sz r"
proof (induction env p i sz r rule: refine_links_loop.induct)
  case (1 env p i sz refined st)
  show ?case
  proof (cases "i < sz")
    case False
    then show ?thesis
      by (simp add: refine_links_loop_traced.simps refine_links_loop.simps)
  next
    case True
    obtain b st' where r: "refine_link env p (gathering_from (info_of st p) ! i) st = (b, st')"
      by (cases "refine_link env p (gathering_from (info_of st p) ! i) st")
    show ?thesis
      using True r 1[OF True r[symmetric]]
      by (cases b)
         (simp_all add: refine_links_loop_traced.simps[of env p i sz]
            refine_links_loop.simps[of env p i sz] case_prod_beta)
  qed
qed

definition shape_ok :: "quadnode list \<Rightarrow> bool" where
  "shape_ok F \<longleftrightarrow> (\<forall>x i k. obs_at F x = Some (i, k) \<longrightarrow> k = 0 \<or> k = 4)"

lemma shape_ok_node:
  "shape_ok F \<Longrightarrow> node_at F x = Some n \<Longrightarrow> length (children n) \<in> {0, 4}"
  by (auto simp: shape_ok_def obs_at_def obs_def)

lemma shape_ok_relinked:
  "(\<And>x. obs_at F' x = relinked g F x) \<Longrightarrow> shape_ok F \<Longrightarrow> shape_ok F'"
  unfolding shape_ok_def relinked_def by (auto split: prod.splits)

lemma valid_ptr_relinked:
  "(\<And>x. obs_at (nodes st') x = relinked g (nodes st) x) \<Longrightarrow> valid_ptr st' x = valid_ptr st x"
  unfolding valid_ptr_def obs_at_None[symmetric] relinked_def by simp

lemma shape_ok_subdivide:
  assumes v: "node_at (nodes st) p = Some pn" and s: "shape_ok (nodes st)"
  shows "shape_ok (nodes (snd (subdivide env p st)))"
proof (cases "is_leaf pn \<and> \<not> area (info pn) / 4 < A_eps env")
  case True
  show ?thesis
    unfolding shape_ok_def
  proof (intro allI impI)
    fix x i k assume "obs_at (nodes (snd (subdivide env p st))) x = Some (i, k)"
    then show "k = 0 \<or> k = 4"
      using obs_at_subdivide[OF v, of env x] True s
      by (auto simp: shape_ok_def split: if_splits)
  qed
next
  case False
  then have "snd (subdivide env p st) = st"
    using v by (cases "is_leaf pn") (auto simp: subdivide_internal subdivide_refused)
  then show ?thesis using s by simp
qed

text \<open>What \<^verbatim>\<open>refine_link\<close> leaves: the links of \<open>p\<close> are the old ones and then new ones.\<close>

lemma refine_link_effect:
  assumes vp: "node_at (nodes st) p = Some pn" and vq: "node_at (nodes st) (link_q l) = Some qn"
    and s: "shape_ok (nodes st)"
    and r: "refine_link env p l st = (b, st')"
  shows "\<exists>new k. obs_at (nodes st') p =
            Some ((info pn)\<lparr>gathering_from := gathering_from (info pn) @ new\<rparr>, k)"
    and "shape_ok (nodes st')"
    and "valid_ptr st x \<Longrightarrow> valid_ptr st' x"
proof -
  let ?q = "link_q l"
  note sp = shape_ok_node[OF s vp] and sq = shape_ok_node[OF s vq]
  note eq = refine_link_eq[OF vp vq, of env, unfolded Let_def r]
  have vpp: "valid_ptr st p" and vqq: "valid_ptr st ?q"
    using vp vq by (simp_all add: valid_ptr_def)
  consider (keep) "st' = st"
    | (recv) "\<not> (is_leaf pn \<and> area (info pn) / 4 < A_eps env)"
        "st' = fold (\<lambda>c. link env c ?q) (child_ptrs (snd (subdivide env p st)) p) (snd (subdivide env p st))"
    | (shoot) "\<not> (is_leaf qn \<and> area (info qn) / 4 < A_eps env)"
        "st' = fold (\<lambda>c. link env p c) (child_ptrs (snd (subdivide env ?q st)) ?q) (snd (subdivide env ?q st))"
    using eq by (auto split: if_splits)
  then have "(\<exists>new k. obs_at (nodes st') p =
            Some ((info pn)\<lparr>gathering_from := gathering_from (info pn) @ new\<rparr>, k))
      \<and> shape_ok (nodes st') \<and> (valid_ptr st x \<longrightarrow> valid_ptr st' x)"
  proof cases
    case keep
    then show ?thesis using vp s by (auto simp: obs_at_valid intro: exI[of _ "[]"])
  next
    case recv
    let ?st1 = "snd (subdivide env p st)"
    note o = refine_link_receiver[OF vp vqq sp recv(1) refl recv(2)]
    obtain k where k: "obs_at (nodes ?st1) p = Some (info pn, k)"
      using info_kept_subdivide[OF vp vp] by blast
    have "p \<notin> set (map (\<lambda>k. p @ [k]) [0..<4])" by auto
    then have "obs_at (nodes st') p = Some ((info pn)\<lparr>gathering_from := gathering_from (info pn) @ []\<rparr>, k)"
      unfolding o(1) by (simp add: relinked_def k del: upt_Suc)
    moreover have "shape_ok (nodes st')"
      using o(1) shape_ok_subdivide[OF vp s] by (rule shape_ok_relinked)
    moreover have "valid_ptr st x \<longrightarrow> valid_ptr st' x"
      using valid_ptr_relinked[of st', OF o(1)] valid_ptr_subdivide[OF vp] by simp
    ultimately show ?thesis by blast
  next
    case shoot
    let ?st1 = "snd (subdivide env ?q st)"
    note o = refine_link_shooter[OF vq vpp sq shoot(1) refl shoot(2)]
    obtain k where k: "obs_at (nodes ?st1) p = Some (info pn, k)"
      using info_kept_subdivide[OF vq vp] by blast
    have "\<exists>new. obs_at (nodes st') p = Some ((info pn)\<lparr>gathering_from := gathering_from (info pn) @ new\<rparr>, k)"
      unfolding o(1) by (auto simp: relinked_def k simp del: upt_Suc)
    moreover have "shape_ok (nodes st')"
      using o(1) shape_ok_subdivide[OF vq s] by (rule shape_ok_relinked)
    moreover have "valid_ptr st x \<longrightarrow> valid_ptr st' x"
      using valid_ptr_relinked[of st', OF o(1)] valid_ptr_subdivide[OF vq] by simp
    ultimately show ?thesis by blast
  qed
  then show "\<exists>new k. obs_at (nodes st') p =
            Some ((info pn)\<lparr>gathering_from := gathering_from (info pn) @ new\<rparr>, k)"
    and "shape_ok (nodes st')" and "valid_ptr st x \<Longrightarrow> valid_ptr st' x"
    by blast+
qed

lemma obs_at_erase_link_same:
  "obs_at (nodes st) p = Some (pinfo, k) \<Longrightarrow>
   obs_at (nodes (erase_link p i st)) p =
     Some (pinfo\<lparr>gathering_from := take i (gathering_from pinfo) @ drop (Suc i) (gathering_from pinfo)\<rparr>, k)"
  by (simp add: obs_at_erase_link relinked_def)

lemma shape_ok_erase_link: "shape_ok (nodes st) \<Longrightarrow> shape_ok (nodes (erase_link p i st))"
  using obs_at_erase_link by (rule shape_ok_relinked)

lemma valid_ptr_erase_link [simp]: "valid_ptr (erase_link p i st) x = valid_ptr st x"
  using obs_at_erase_link by (rule valid_ptr_relinked)

lemma traced_examined:
  assumes "obs_at (nodes st) p = Some (pinfo, k)" and "i \<le> sz" and "sz \<le> length (gathering_from pinfo)"
    and "shape_ok (nodes st)"
    and "\<forall>j. i \<le> j \<and> j < sz \<longrightarrow> valid_ptr st (link_q (gathering_from pinfo ! j))"
  shows "fst (refine_links_loop_traced env p i sz (r, st)) = take (sz - i) (drop i (gathering_from pinfo))"
  using assms
proof (induction n \<equiv> "sz - i" arbitrary: i sz st r pinfo k)
  case 0
  then show ?case by (simp add: refine_links_loop_traced.simps)
next
  case (Suc n)
  let ?cur = "gathering_from pinfo"
  let ?l = "?cur ! i"
  have lt: "i < sz" using Suc.hyps(2) by simp
  obtain pn where vp: "node_at (nodes st) p = Some pn" and ip: "info pn = pinfo"
    using Suc.prems(1) by (auto simp: obs_at_def obs_def)
  have io: "info_of st p = pinfo" using vp ip by (simp add: info_of_valid)
  obtain qn where vq: "node_at (nodes st) (link_q ?l) = Some qn"
    using Suc.prems(5) lt by (auto simp: valid_ptr_def)
  obtain b st' where rl: "refine_link env p ?l st = (b, st')"
    by (cases "refine_link env p ?l st")
  note eff = refine_link_effect[OF vp vq Suc.prems(4) rl]
  obtain new k' where o': "obs_at (nodes st') p = Some (pinfo\<lparr>gathering_from := ?cur @ new\<rparr>, k')"
    using eff(1) ip by auto
  have hd: "take (sz - i) (drop i ?cur) = ?l # take (sz - Suc i) (drop (Suc i) ?cur)"
  proof -
    have "drop i ?cur = ?l # drop (Suc i) ?cur"
      using lt Suc.prems(3) by (simp add: Cons_nth_drop_Suc)
    moreover have "sz - i = Suc (sz - Suc i)" using lt by simp
    ultimately show ?thesis by (simp only: take_Suc_Cons)
  qed
  show ?case
  proof (cases b)
    case False
    have "fst (refine_links_loop_traced env p (Suc i) sz (r, st'))
        = take (sz - Suc i) (drop (Suc i) (?cur @ new))"
    proof -
      have "fst (refine_links_loop_traced env p (Suc i) sz (r, st'))
        = take (sz - Suc i) (drop (Suc i) (gathering_from (pinfo\<lparr>gathering_from := ?cur @ new\<rparr>)))"
      proof (rule Suc.hyps(1)[OF _ o'])
        show "n = sz - Suc i" using Suc.hyps(2) by simp
        show "Suc i \<le> sz" using lt by simp
        show "sz \<le> length (gathering_from (pinfo\<lparr>gathering_from := ?cur @ new\<rparr>))"
          using Suc.prems(3) by simp
        show "shape_ok (nodes st')" by (rule eff(2))
        show "\<forall>j. Suc i \<le> j \<and> j < sz \<longrightarrow>
            valid_ptr st' (link_q (gathering_from (pinfo\<lparr>gathering_from := ?cur @ new\<rparr>) ! j))"
          using Suc.prems(5,3) eff(3) by (auto simp: nth_append)
      qed
      then show ?thesis by simp
    qed
    then show ?thesis
      using False lt rl Suc.prems(3) hd
      by (simp add: refine_links_loop_traced.simps[of env p i sz] io case_prod_beta)
  next
    case True
    let ?st'' = "erase_link p i st'"
    let ?cur'' = "take i (?cur @ new) @ drop (Suc i) (?cur @ new)"
    have o'': "obs_at (nodes ?st'') p = Some (pinfo\<lparr>gathering_from := ?cur''\<rparr>, k')"
      using obs_at_erase_link_same[OF o'] by simp
    have c'': "?cur'' = take i ?cur @ drop (Suc i) ?cur @ new"
      using lt Suc.prems(3) by simp
    have "fst (refine_links_loop_traced env p i (sz - 1) (True, ?st''))
        = take (sz - 1 - i) (drop i (gathering_from (pinfo\<lparr>gathering_from := ?cur''\<rparr>)))"
    proof (rule Suc.hyps(1)[OF _ o''])
      show "n = sz - 1 - i" using Suc.hyps(2) by simp
      show "i \<le> sz - 1" using lt by simp
      show "sz - 1 \<le> length (gathering_from (pinfo\<lparr>gathering_from := ?cur''\<rparr>))"
        using Suc.prems(3) lt by simp
      show "shape_ok (nodes ?st'')" using eff(2) by (rule shape_ok_erase_link)
      show "\<forall>j. i \<le> j \<and> j < sz - 1 \<longrightarrow>
          valid_ptr ?st'' (link_q (gathering_from (pinfo\<lparr>gathering_from := ?cur''\<rparr>) ! j))"
      proof (intro allI impI)
        fix j assume j: "i \<le> j \<and> j < sz - 1"
        then have "?cur'' ! j = ?cur ! Suc j"
          unfolding c'' using Suc.prems(3) lt by (auto simp: nth_append)
        moreover have "valid_ptr st (link_q (?cur ! Suc j))"
          using Suc.prems(5)[rule_format, of "Suc j"] j by auto
        ultimately show "valid_ptr ?st'' (link_q (gathering_from (pinfo\<lparr>gathering_from := ?cur''\<rparr>) ! j))"
          using eff(3) by simp
      qed
    qed
    also have "\<dots> = take (sz - Suc i) (drop (Suc i) ?cur)"
      using lt Suc.prems(3) by (simp add: c'')
    finally show ?thesis
      using True lt rl hd
      by (simp add: refine_links_loop_traced.simps[of env p i sz] io case_prod_beta)
  qed
qed

text \<open>
  C8.  The pass over the links of a valid node \<open>p\<close>, started with \<open>size\<close> the number of its
  links: the links handed to \<^verbatim>\<open>refine_link\<close> are the links \<open>p\<close> has at that moment, each
  one once and in their order.  So no link appended during the pass is visited, whatever
  is erased on the way.  (The nodes have no or four children and the shooters of these
  links are valid pointers.)
\<close>

theorem refine_links_loop_snapshot:
  assumes "node_at (nodes st) p = Some pn" and "shape_ok (nodes st)"
    and "\<forall>l \<in> set (gathering_from (info pn)). valid_ptr st (link_q l)"
  shows "fst (refine_links_loop_traced env p 0 (length (gathering_from (info pn))) (refined, st))
           = gathering_from (info pn)
       \<and> snd (refine_links_loop_traced env p 0 (length (gathering_from (info pn))) (refined, st))
           = refine_links_loop env p 0 (length (gathering_from (info pn))) (refined, st)"
proof -
  have "obs_at (nodes st) p = Some (info pn, length (children pn))"
    using assms(1) by (rule obs_at_valid)
  from traced_examined[OF this, of 0 "length (gathering_from (info pn))" env refined] assms(2,3)
  show ?thesis by (simp add: refine_links_loop_traced_snd)
qed

lemma shape_ok_leaves: "\<forall>n \<in> set F. children n = [] \<Longrightarrow> shape_ok F"
  unfolding shape_ok_def
proof (intro allI impI)
  fix x i k assume a: "\<forall>n \<in> set F. children n = []" and o: "obs_at F x = Some (i, k)"
  show "k = 0 \<or> k = 4"
  proof (cases x)
    case Nil
    then show ?thesis using o by (simp add: obs_at_def)
  next
    case (Cons j r)
    then show ?thesis using o a by (cases r) (auto simp: obs_at_def obs_def split: if_splits)
  qed
qed

theorem refine_links_loop_snapshot_witness:
  "fst (refine_links_loop_traced ex_env [0] 0 1 (False, ex_linked)) = [ex_link]
   \<and> snd (refine_links_loop_traced ex_env [0] 0 1 (False, ex_linked))
       = refine_links_loop ex_env [0] 0 1 (False, ex_linked)
   \<and> map link_q (gathering_from
         (info_of (snd (refine_links_loop ex_env [0] 0 1 (False, ex_linked))) [0]))
       = [[1, 0], [1, 1], [1, 2], [1, 3]]"
proof -
  have v: "node_at (nodes ex_linked) [0] = Some ex_receiver"
    by (simp add: ex_linked_def)
  have s: "shape_ok (nodes ex_linked)"
    by (rule shape_ok_leaves)
       (simp add: ex_linked_def ex_receiver_def ex_shooter_def map_info_def ex_root_def)
  have g: "gathering_from (info ex_receiver) = [ex_link]"
    by (simp add: ex_receiver_def map_info_def)
  have l: "\<forall>l \<in> set (gathering_from (info ex_receiver)). valid_ptr ex_linked (link_q l)"
    by (simp add: g ex_link_def valid_ptr_def ex_linked_def)
  have a: "map link_q (gathering_from
         (info_of (snd (refine_links_loop ex_env [0] 0 1 (False, ex_linked))) [0]))
       = [[1, 0], [1, 1], [1, 2], [1, 3]]"
    by (simp add: refine_links_loop.simps refine_link_def ex_linked_def ex_receiver_def
        ex_shooter_def ex_root_def map_info_def info_of_def node_of_def ex_link_def
        get_triangle_def is_root_def ex_env_def color_scale_def ex_red_def subdivide_def
        is_leaf_def Let_def upt_rec subdivide_child_def next_triangle_id_def child_ptrs_def
        link_def erase_link_def)
  show ?thesis
    using refine_links_loop_snapshot[OF v s l, of ex_env False] a by (simp add: g)
qed

section \<open>The order of the results\<close>

text \<open>The leaves of a subtree in the order in which the loop over the stack reaches them.\<close>

fun leaves_rev :: "quadnode \<Rightarrow> quadnode list" where
  "leaves_rev (Quadnode i cs) =
     (if cs = [] then [Quadnode i cs] else concat (map leaves_rev (rev cs)))"

lemma leaves_rev_eq:
  "leaves_rev p = (if is_leaf p then [p] else concat (map leaves_rev (rev (children p))))"
  by (cases p) (simp add: is_leaf_children)

declare leaves_rev.simps [simp del]

lemma dfs_leaves_fold:
  "dfs_leaves visit stack acc = fold visit (concat (map leaves_rev stack)) acc"
proof (induction visit stack acc rule: dfs_leaves.induct)
  case (1 visit acc)
  then show ?case by simp
next
  case (2 visit p stack acc)
  then show ?case by (cases "is_leaf p") (simp_all add: leaves_rev_eq[of p])
qed

lemma fold_dfs_leaves:
  "fold (\<lambda>root. dfs_leaves visit [root]) F acc = fold visit (concat (map leaves_rev F)) acc"
  by (induction F arbitrary: acc) (simp_all add: dfs_leaves_fold)

lemma fold_snoc_map: "fold (\<lambda>p acc. acc @ [f p]) xs ys = ys @ map f xs"
  by (induction xs arbitrary: ys) simp_all

text \<open>
  The same order on pointers: the leaves below the node \<open>n\<close> that \<open>x\<close> points to, children
  from the last slot to the first; and all leaves, root after root.
\<close>

function leaf_ptrs :: "ptr \<Rightarrow> quadnode \<Rightarrow> ptr list" where
  "leaf_ptrs x n =
     (if is_leaf n then [x]
      else concat (map (\<lambda>k. leaf_ptrs (x @ [k]) (children n ! k)) (rev [0..<length (children n)])))"
  by pat_completeness auto
termination
proof (relation "measure (\<lambda>(x, n). nnodes n)", goal_cases)
  case (2 x n k)
  then have "children n ! k \<in> set (children n)" by simp
  then have "nnodes (children n ! k) \<le> sum_list (map nnodes (children n))"
    by (simp add: member_le_sum_list)
  then show ?case by (cases n) simp
qed simp

declare leaf_ptrs.simps [simp del]

definition leaf_order :: "('tri, 'mesh) state \<Rightarrow> ptr list" where
  "leaf_order st = concat (map (\<lambda>r. leaf_ptrs [r] (nodes st ! r)) [0..<length (nodes st)])"

lemma leaves_rev_leaf_ptrs:
  "node_at F x = Some n \<Longrightarrow> map (\<lambda>y. the (node_at F y)) (leaf_ptrs x n) = leaves_rev n"
proof (induction x n rule: leaf_ptrs.induct)
  case (1 x n)
  show ?case
  proof (cases "is_leaf n")
    case True
    then show ?thesis using 1 by (simp add: leaf_ptrs.simps[of x n] leaves_rev_eq[of n])
  next
    case False
    have xne: "x \<noteq> []" using 1(2) by (rule node_at_valid_nonempty)
    have c: "k < length (children n) \<Longrightarrow> node_at F (x @ [k]) = Some (children n ! k)" for k
      using 1(2) xne by (simp add: node_at_append)
    have "map (\<lambda>y. the (node_at F y)) (leaf_ptrs x n) =
        concat (map (\<lambda>k. map (\<lambda>y. the (node_at F y)) (leaf_ptrs (x @ [k]) (children n ! k)))
                  (rev [0..<length (children n)]))"
      using False by (simp add: leaf_ptrs.simps[of x n] map_concat comp_def)
    also have "\<dots> = concat (map (\<lambda>k. leaves_rev (children n ! k)) (rev [0..<length (children n)]))"
      using 1(1)[OF False _ c] by (intro arg_cong[where f = concat] map_cong refl) simp
    also have "\<dots> = concat (map leaves_rev (rev (children n)))"
    proof -
      have "rev (children n) = map (\<lambda>k. children n ! k) (rev [0..<length (children n)])"
        by (simp add: rev_map[symmetric] map_nth)
      then have "map leaves_rev (rev (children n))
          = map leaves_rev (map (\<lambda>k. children n ! k) (rev [0..<length (children n)]))"
        by simp
      then show ?thesis by (simp add: comp_def)
    qed
    finally show ?thesis using False by (simp add: leaves_rev_eq[of n])
  qed
qed

lemma leaves_rev_leaf_order:
  "concat (map leaves_rev (nodes st)) = map (node_of st) (leaf_order st)"
proof -
  have "map (node_of st) (leaf_ptrs [r] (nodes st ! r)) = leaves_rev (nodes st ! r)"
    if "r < length (nodes st)" for r
    using leaves_rev_leaf_ptrs[of "nodes st" "[r]" "nodes st ! r"] that
    by (simp add: node_of_def[abs_def])
  then have "map (\<lambda>r. map (node_of st) (leaf_ptrs [r] (nodes st ! r))) [0..<length (nodes st)]
      = map (\<lambda>r. leaves_rev (nodes st ! r)) [0..<length (nodes st)]"
    by (intro map_cong refl) simp
  moreover have "map (\<lambda>r. leaves_rev (nodes st ! r)) [0..<length (nodes st)] = map leaves_rev (nodes st)"
    by (intro nth_equalityI) simp_all
  ultimately show ?thesis by (simp add: leaf_order_def map_concat comp_def)
qed

lemma leaf_ptrs_prefix: "y \<in> set (leaf_ptrs x n) \<Longrightarrow> prefix x y"
proof (induction x n arbitrary: y rule: leaf_ptrs.induct)
  case (1 x n)
  show ?case
  proof (cases "is_leaf n")
    case True
    then show ?thesis using 1(2) by (simp add: leaf_ptrs.simps[of x n])
  next
    case False
    then obtain k where k: "k < length (children n)" and y: "y \<in> set (leaf_ptrs (x @ [k]) (children n ! k))"
      using 1(2) by (auto simp: leaf_ptrs.simps[of x n])
    then have "prefix (x @ [k]) y" using 1(1)[OF False] by simp
    then show ?thesis by (metis append_prefixD)
  qed
qed

lemma distinct_concat_map:
  "distinct ks \<Longrightarrow> (\<And>k. k \<in> set ks \<Longrightarrow> distinct (f k))
   \<Longrightarrow> (\<And>k k'. k \<in> set ks \<Longrightarrow> k' \<in> set ks \<Longrightarrow> k \<noteq> k' \<Longrightarrow> set (f k) \<inter> set (f k') = {})
   \<Longrightarrow> distinct (concat (map f ks))"
  by (induction ks) auto

lemma prefix_snoc_disjoint:
  "prefix (x @ [k]) y \<Longrightarrow> prefix (x @ [k']) y \<Longrightarrow> k = (k' :: nat)"
  by (auto simp: prefix_def append_eq_append_conv2 Cons_eq_append_conv)

lemma distinct_leaf_ptrs: "distinct (leaf_ptrs x n)"
proof (induction x n rule: leaf_ptrs.induct)
  case (1 x n)
  show ?case
  proof (cases "is_leaf n")
    case True
    then show ?thesis by (simp add: leaf_ptrs.simps[of x n])
  next
    case False
    have "distinct (concat (map (\<lambda>k. leaf_ptrs (x @ [k]) (children n ! k)) (rev [0..<length (children n)])))"
    proof (rule distinct_concat_map)
      show "distinct (rev [0..<length (children n)])" by simp
      show "distinct (leaf_ptrs (x @ [k]) (children n ! k))" if "k \<in> set (rev [0..<length (children n)])" for k
        using 1[OF False that] .
      show "set (leaf_ptrs (x @ [k]) (children n ! k)) \<inter> set (leaf_ptrs (x @ [k']) (children n ! k')) = {}"
        if "k \<noteq> k'" for k k'
        using that leaf_ptrs_prefix prefix_snoc_disjoint by blast
    qed
    then show ?thesis using False by (simp add: leaf_ptrs.simps[of x n])
  qed
qed

lemma node_at_Cons_valid: "node_at F (k # r) = Some m \<Longrightarrow> k < length F"
  by (cases r) (auto split: if_splits)

lemma set_leaf_ptrs:
  "node_at F x = Some n \<Longrightarrow>
   set (leaf_ptrs x n) = {y. prefix x y \<and> (\<exists>m. node_at F y = Some m \<and> is_leaf m)}"
proof (induction x n rule: leaf_ptrs.induct)
  case (1 x n)
  have xne: "x \<noteq> []" using 1(2) by (rule node_at_valid_nonempty)
  show ?case
  proof (cases "is_leaf n")
    case True
    have "y = x" if pre: "prefix x y" and val: "node_at F y = Some m" for y m
    proof -
      obtain r where r: "y = x @ r" using pre by (auto simp: prefix_def)
      show ?thesis
      proof (cases "r = []")
        case False
        then have "node_at F y = None"
          using r 1(2) True xne by (simp add: node_at_append is_leaf_children)
        then show ?thesis using val by simp
      qed (simp add: r)
    qed
    then show ?thesis using True 1(2) by (auto simp: leaf_ptrs.simps[of x n])
  next
    case False
    have c: "k < length (children n) \<Longrightarrow> node_at F (x @ [k]) = Some (children n ! k)" for k
      using 1(2) xne by (simp add: node_at_append)
    have "set (leaf_ptrs x n) = (\<Union>k \<in> {0..<length (children n)}. set (leaf_ptrs (x @ [k]) (children n ! k)))"
      using False by (simp add: leaf_ptrs.simps[of x n])
    also have "\<dots> = (\<Union>k \<in> {0..<length (children n)}.
        {y. prefix (x @ [k]) y \<and> (\<exists>m. node_at F y = Some m \<and> is_leaf m)})"
      using 1(1)[OF False _ c] by simp
    also have "\<dots> = {y. prefix x y \<and> (\<exists>m. node_at F y = Some m \<and> is_leaf m)}"
    proof (intro set_eqI iffI)
      fix y assume "y \<in> (\<Union>k \<in> {0..<length (children n)}.
        {y. prefix (x @ [k]) y \<and> (\<exists>m. node_at F y = Some m \<and> is_leaf m)})"
      then show "y \<in> {y. prefix x y \<and> (\<exists>m. node_at F y = Some m \<and> is_leaf m)}"
        by (auto dest: append_prefixD)
    next
      fix y assume "y \<in> {y. prefix x y \<and> (\<exists>m. node_at F y = Some m \<and> is_leaf m)}"
      then obtain r m where r: "y = x @ r" and m: "node_at F y = Some m" "is_leaf m"
        by (auto simp: prefix_def)
      have "r \<noteq> []" using r m 1(2) False by auto
      then obtain k r' where kr: "r = k # r'" by (cases r) auto
      have "node_at (children n) (k # r') = Some m"
        using m(1) r kr 1(2) xne by (simp add: node_at_append)
      then have "k < length (children n)" by (rule node_at_Cons_valid)
      moreover have "prefix (x @ [k]) y" using r kr by simp
      ultimately show "y \<in> (\<Union>k \<in> {0..<length (children n)}.
        {y. prefix (x @ [k]) y \<and> (\<exists>m. node_at F y = Some m \<and> is_leaf m)})"
        using m by auto
    qed
    finally show ?thesis .
  qed
qed

lemma set_leaf_order:
  "set (leaf_order st) = {y. \<exists>m. node_at (nodes st) y = Some m \<and> is_leaf m}"
proof -
  have "set (leaf_order st) = (\<Union>r \<in> {0..<length (nodes st)}.
      {y. prefix [r] y \<and> (\<exists>m. node_at (nodes st) y = Some m \<and> is_leaf m)})"
    using set_leaf_ptrs[of "nodes st" "[r]" "nodes st ! r" for r]
    by (simp add: leaf_order_def)
  also have "\<dots> = {y. \<exists>m. node_at (nodes st) y = Some m \<and> is_leaf m}"
  proof (intro set_eqI iffI)
    fix y assume "y \<in> {y. \<exists>m. node_at (nodes st) y = Some m \<and> is_leaf m}"
    then obtain m where m: "node_at (nodes st) y = Some m" "is_leaf m" by auto
    then obtain k r where y: "y = k # r" by (cases y) auto
    then have "k < length (nodes st)" using m(1) node_at_Cons_valid by blast
    then show "y \<in> (\<Union>r \<in> {0..<length (nodes st)}.
      {y. prefix [r] y \<and> (\<exists>m. node_at (nodes st) y = Some m \<and> is_leaf m)})"
      using m y by auto
  qed auto
  finally show ?thesis .
qed

lemma distinct_leaf_order: "distinct (leaf_order st)"
  unfolding leaf_order_def
proof (rule distinct_concat_map)
  show "set (leaf_ptrs [k] (nodes st ! k)) \<inter> set (leaf_ptrs [k'] (nodes st ! k')) = {}"
    if "k \<noteq> k'" for k k'
    using that leaf_ptrs_prefix[of _ "[k]"] leaf_ptrs_prefix[of _ "[k']"]
      prefix_snoc_disjoint[of "[]" k _ k'] by fastforce
qed (simp_all add: distinct_leaf_ptrs)

lemma fold_index_emplace:
  "distinct (ks @ map key L) \<Longrightarrow>
   fold (\<lambda>p index. index_emplace (key p) (length index) index) L (zip ks [0..<length ks])
     = zip (ks @ map key L) [0..<length ks + length L]"
proof (induction L arbitrary: ks)
  case Nil
  then show ?case by simp
next
  case (Cons p L)
  have "fst ` set (zip ks [0..<length ks]) = set ks"
    by (metis diff_zero length_upt map_fst_zip set_map)
  then have "map_of (zip ks [0..<length ks]) (key p) = None"
    using Cons.prems by (simp add: map_of_eq_None_iff)
  then have "index_emplace (key p) (length (zip ks [0..<length ks])) (zip ks [0..<length ks])
      = zip (ks @ [key p]) [0..<length (ks @ [key p])]"
    by (simp add: index_emplace_def)
  then show ?case using Cons.IH[of "ks @ [key p]"] Cons.prems by simp
qed

lemma triangles_eq:
  "triangles env st = map (\<lambda>x. get_triangle env st (info_of st x)) (leaf_order st)"
  by (simp add: triangles_def fold_dfs_leaves fold_snoc_map leaves_rev_leaf_order comp_def
      info_of_def)

lemma radiosity_eq:
  "radiosity st = map (\<lambda>x. (rad_shoot (info_of st x))\<lparr>col_a := 1\<rparr>) (leaf_order st)"
  by (simp add: radiosity_def fold_dfs_leaves fold_snoc_map leaves_rev_leaf_order comp_def
      info_of_def)

lemma triangle_index_eq:
  assumes "distinct (map (\<lambda>x. tri_id (info_of st x)) (leaf_order st))"
  shows "triangle_index st =
     zip (map (\<lambda>x. tri_id (info_of st x)) (leaf_order st)) [0..<length (leaf_order st)]"
proof -
  have "distinct ([] @ map (\<lambda>p. tri_id (info p)) (map (node_of st) (leaf_order st)))"
    using assms by (simp add: comp_def info_of_def)
  from fold_index_emplace[OF this]
  show ?thesis
    by (simp add: triangle_index_def fold_dfs_leaves leaves_rev_leaf_order comp_def info_of_def)
qed

text \<open>
  C9, as the code has it.  \<^verbatim>\<open>triangles\<close>, \<^verbatim>\<open>radiosity\<close> and \<^verbatim>\<open>triangle_index\<close> go through
  the same list of pointers, \<open>leaf_order\<close>: it holds every leaf of the hierarchy once and no
  other node, root after root in the order of \<^verbatim>\<open>nodes_\<close>, and below an internal node the
  leaves under slot 3 first and those under slot 0 last (the children are pushed in slot
  order and popped from the top).  \<^verbatim>\<open>triangles\<close> and \<^verbatim>\<open>radiosity\<close> are aligned with it
  position by position; when the leaves have distinct \<open>tri_id\<close>s, \<^verbatim>\<open>triangle_index\<close> maps
  the \<open>tri_id\<close> of the leaf at position \<open>i\<close> to \<open>i\<close>.
\<close>

theorem results_leaf_order:
  "triangles env st = map (\<lambda>x. get_triangle env st (info_of st x)) (leaf_order st)
   \<and> radiosity st = map (\<lambda>x. (rad_shoot (info_of st x))\<lparr>col_a := 1\<rparr>) (leaf_order st)
   \<and> (distinct (map (\<lambda>x. tri_id (info_of st x)) (leaf_order st)) \<longrightarrow>
        triangle_index st =
          zip (map (\<lambda>x. tri_id (info_of st x)) (leaf_order st)) [0..<length (leaf_order st)])
   \<and> distinct (leaf_order st)
   \<and> set (leaf_order st) = {x. \<exists>n. node_at (nodes st) x = Some n \<and> is_leaf n}"
  using triangles_eq radiosity_eq triangle_index_eq distinct_leaf_order set_leaf_order
  by blast

text \<open>
  The order as the specification words it: roots in insertion order, children in slot
  order 0 to 3.
\<close>

function leaf_ptrs_slot_order :: "ptr \<Rightarrow> quadnode \<Rightarrow> ptr list" where
  "leaf_ptrs_slot_order x n =
     (if is_leaf n then [x]
      else concat (map (\<lambda>k. leaf_ptrs_slot_order (x @ [k]) (children n ! k))
                     [0..<length (children n)]))"
  by pat_completeness auto
termination
proof (relation "measure (\<lambda>(x, n). nnodes n)", goal_cases)
  case (2 x n k)
  then have "children n ! k \<in> set (children n)" by simp
  then have "nnodes (children n ! k) \<le> sum_list (map nnodes (children n))"
    by (simp add: member_le_sum_list)
  then show ?case by (cases n) simp
qed simp

declare leaf_ptrs_slot_order.simps [simp del]

definition leaf_order_spec :: "('tri, 'mesh) state \<Rightarrow> ptr list" where
  "leaf_order_spec st =
     concat (map (\<lambda>r. leaf_ptrs_slot_order [r] (nodes st ! r)) [0..<length (nodes st)])"

text \<open>The small scene after \<^verbatim>\<open>subdivide\<close> of its first root.\<close>

definition ex_subdivided :: "(nat, unit) state" where
  "ex_subdivided = snd (subdivide ex_env [0] (init_state ex_env))"

lemma ex_subdivided_nodes:
  "nodes ex_subdivided =
     [Quadnode (info (ex_root 0)) (new_children ex_env (init_state ex_env) [0]), ex_root 1]"
  "subdivided_tris ex_subdivided = [110, 111, 112, 113]"
proof -
  have v: "node_at (nodes (init_state ex_env)) [0] = Some (ex_root 0)"
    by (simp add: ex_init_nodes)
  have l: "is_leaf (ex_root 0)" "\<not> area (info (ex_root 0)) / 4 < A_eps ex_env"
    by (simp_all add: ex_root_def is_leaf_def ex_env_def)
  have i: "info_of (init_state ex_env) [0] = info (ex_root 0)"
    using v by (rule info_of_valid)
  show "nodes ex_subdivided =
     [Quadnode (info (ex_root 0)) (new_children ex_env (init_state ex_env) [0]), ex_root 1]"
    unfolding ex_subdivided_def subdivide_success[OF v l]
    by (simp add: ex_init_nodes) (simp add: ex_root_def)
  show "subdivided_tris ex_subdivided = [110, 111, 112, 113]"
    unfolding ex_subdivided_def subdivide_success[OF v l]
    by (simp add: new_tris_def i upt_4) (simp add: init_state_def ex_env_def ex_root_def)
qed

lemma ex_leaf_order: "leaf_order ex_subdivided = [[0, 3], [0, 2], [0, 1], [0, 0], [1]]"
  by (simp add: leaf_order_def ex_subdivided_nodes upt_rec leaf_ptrs.simps is_leaf_def
      new_children_def ex_root_def)

lemma ex_leaf_order_spec: "leaf_order_spec ex_subdivided = [[0, 0], [0, 1], [0, 2], [0, 3], [1]]"
  by (simp add: leaf_order_spec_def ex_subdivided_nodes upt_rec leaf_ptrs_slot_order.simps
      is_leaf_def new_children_def ex_root_def)

lemma ex_leaf_tri_ids:
  "map (\<lambda>x. tri_id (info_of ex_subdivided x)) [[0, 3], [0, 2], [0, 1], [0, 0], [1]] = [5, 4, 3, 2, 1]"
  by (simp add: info_of_def node_of_def ex_subdivided_nodes new_children_def upt_rec
      child_info_def next_triangle_id_def ex_root_def)
     (simp add: init_state_def ex_env_def)

theorem results_leaf_order_witness:
  "leaf_order ex_subdivided = [[0, 3], [0, 2], [0, 1], [0, 0], [1]]
   \<and> distinct (map (\<lambda>x. tri_id (info_of ex_subdivided x)) (leaf_order ex_subdivided))
   \<and> triangle_index ex_subdivided = [(5, 0), (4, 1), (3, 2), (2, 3), (1, 4)]"
proof -
  have d: "distinct (map (\<lambda>x. tri_id (info_of ex_subdivided x)) (leaf_order ex_subdivided))"
    by (simp only: ex_leaf_order ex_leaf_tri_ids) simp
  with results_leaf_order[of ex_env ex_subdivided]
  have "triangle_index ex_subdivided =
      zip (map (\<lambda>x. tri_id (info_of ex_subdivided x)) (leaf_order ex_subdivided))
        [0..<length (leaf_order ex_subdivided)]"
    by blast
  then have "triangle_index ex_subdivided = [(5, 0), (4, 1), (3, 2), (2, 3), (1, 4)]"
    by (simp only: ex_leaf_order ex_leaf_tri_ids) (simp add: upt_rec)
  then show ?thesis using d ex_leaf_order by blast
qed

theorem results_slot_order_counterexample:
  "triangles ex_env ex_subdivided
     \<noteq> map (\<lambda>x. get_triangle ex_env ex_subdivided (info_of ex_subdivided x))
          (leaf_order_spec ex_subdivided)"
proof -
  have g: "map (\<lambda>x. get_triangle ex_env ex_subdivided (info_of ex_subdivided x))
      [[0, 3], [0, 2], [0, 1], [0, 0], [1]] = [113, 112, 111, 110, 1]"
    "map (\<lambda>x. get_triangle ex_env ex_subdivided (info_of ex_subdivided x))
      [[0, 0], [0, 1], [0, 2], [0, 3], [1]] = [110, 111, 112, 113, 1]"
    by (simp_all add: get_triangle_def is_root_def info_of_def node_of_def ex_subdivided_nodes
        new_children_def upt_rec child_info_def next_triangle_id_def ex_root_def)
       (simp_all add: init_state_def ex_env_def)
  show ?thesis
    unfolding triangles_eq ex_leaf_order ex_leaf_order_spec g by simp
qed

section \<open>The solver: one iteration\<close>

definition color_sum :: "color list \<Rightarrow> color" where
  "color_sum cs = fold (\<lambda>c acc. color_add acc c) cs color_zero"

text \<open>What the gather sweep stores in \<open>rad_gather\<close> of a node with fields \<open>i\<close>.\<close>

definition gathered_radiosity :: "('tri, 'mesh) state \<Rightarrow> qinfo \<Rightarrow> color" where
  "gathered_radiosity st i =
     color_mul (rho i)
       (color_sum (map (\<lambda>l. color_scale (rad_shoot (info_of st (link_q l))) (form_factor l))
                     (gathering_from i)))"

text \<open>
  \<open>gather_done D st0 st\<close>: \<open>st\<close> is \<open>st0\<close> with \<open>rad_gather\<close> overwritten at the nodes in \<open>D\<close>.
\<close>

definition gather_done :: "ptr set \<Rightarrow> ('tri, 'mesh) state \<Rightarrow> ('tri, 'mesh) state \<Rightarrow> bool" where
  "gather_done D st0 st \<longleftrightarrow>
     (\<forall>x. obs_at (nodes st) x =
        map_option (\<lambda>(i, k). (if x \<in> D then i\<lparr>rad_gather := gathered_radiosity st0 i\<rparr> else i, k))
          (obs_at (nodes st0) x))
     \<and> subdivided_tris st = subdivided_tris st0 \<and> mesh st = mesh st0"

lemma gather_done_refl: "gather_done {} st st"
  by (auto simp: gather_done_def option.map_ident split_def)

lemma gather_done_valid: "gather_done D st0 st \<Longrightarrow> valid_ptr st x = valid_ptr st0 x"
  unfolding gather_done_def valid_ptr_def obs_at_None[symmetric] by simp

lemma info_of_node_None:
  "node_at (nodes st) x = None \<Longrightarrow> node_at (nodes st') x = None \<Longrightarrow> info_of st x = info_of st' x"
  by (simp add: info_of_def node_of_def)

lemma gather_done_info:
  assumes "gather_done D st0 st"
  shows "rad_shoot (info_of st x) = rad_shoot (info_of st0 x)"
    and "gathering_from (info_of st x) = gathering_from (info_of st0 x)"
    and "rho (info_of st x) = rho (info_of st0 x)"
proof -
  have "rad_shoot (info_of st x) = rad_shoot (info_of st0 x)
      \<and> gathering_from (info_of st x) = gathering_from (info_of st0 x)
      \<and> rho (info_of st x) = rho (info_of st0 x)"
  proof (cases "obs_at (nodes st0) x")
    case None
    then have "node_at (nodes st0) x = None" "node_at (nodes st) x = None"
      using assms by (simp_all add: gather_done_def obs_at_None[symmetric])
    then show ?thesis using info_of_node_None[of st x st0] by simp
  next
    case (Some a)
    obtain i k where a: "a = (i, k)" by (cases a)
    have "info_of st0 x = i" using Some a by (simp add: info_of_obs_at)
    moreover have "info_of st x = (if x \<in> D then i\<lparr>rad_gather := gathered_radiosity st0 i\<rparr> else i)"
      using assms Some a by (intro info_of_obs_at[of _ _ _ k]) (simp add: gather_done_def)
    ultimately show ?thesis by simp
  qed
  then show "rad_shoot (info_of st x) = rad_shoot (info_of st0 x)"
    and "gathering_from (info_of st x) = gathering_from (info_of st0 x)"
    and "rho (info_of st x) = rho (info_of st0 x)" by simp_all
qed

lemma gather_node_eq:
  "gather_node st p =
     st\<lparr>nodes := update_at (map_info (\<lambda>n. n\<lparr>rad_gather := color_mul (rho n)
         (color_sum (map (\<lambda>l. color_scale (rad_shoot (info_of st (link_q l))) (form_factor l))
                     (gathering_from (info_of st p))))\<rparr>)) p (nodes st)\<rparr>"
  by (simp add: gather_node_def color_sum_def fold_map comp_def)

lemma gather_done_step:
  assumes "gather_done D st0 st"
  shows "gather_done (insert p D) st0 (gather_node st p)"
proof -
  have s: "map (\<lambda>l. color_scale (rad_shoot (info_of st (link_q l))) (form_factor l))
                     (gathering_from (info_of st p))
      = map (\<lambda>l. color_scale (rad_shoot (info_of st0 (link_q l))) (form_factor l))
                     (gathering_from (info_of st0 p))"
    using gather_done_info[OF assms] by simp
  have "obs_at (nodes (gather_node st p)) x =
        map_option (\<lambda>(i, k). (if x \<in> insert p D then i\<lparr>rad_gather := gathered_radiosity st0 i\<rparr> else i, k))
          (obs_at (nodes st0) x)" for x
  proof (cases "obs_at (nodes st0) x")
    case None
    then show ?thesis using assms by (auto simp: gather_node_eq obs_at_update_map_info gather_done_def)
  next
    case (Some a)
    obtain i k where a: "a = (i, k)" by (cases a)
    let ?i' = "if x \<in> D then i\<lparr>rad_gather := gathered_radiosity st0 i\<rparr> else i"
    have o: "obs_at (nodes st) x = Some (?i', k)"
      using assms Some a by (simp add: gather_done_def)
    show ?thesis
    proof (cases "x = p")
      case False
      then show ?thesis using o Some a by (simp add: gather_node_eq obs_at_update_map_info)
    next
      case True
      have i0: "info_of st0 p = i" using Some a True by (simp add: info_of_obs_at)
      have "obs_at (nodes (gather_node st p)) x = Some (?i'\<lparr>rad_gather := gathered_radiosity st0 i\<rparr>, k)"
        using o True by (simp add: gather_node_eq s obs_at_update_map_info gathered_radiosity_def i0)
      then show ?thesis using Some a True by simp
    qed
  qed
  then show ?thesis using assms by (simp add: gather_done_def gather_node_eq)
qed

lemma gather_done_mono_valid:
  "gather_done D st0 st \<Longrightarrow> (\<And>x. valid_ptr st0 x \<Longrightarrow> (x \<in> D') = (x \<in> D)) \<Longrightarrow> gather_done D' st0 st"
  unfolding gather_done_def valid_ptr_def obs_at_None[symmetric]
  by (auto intro!: option.map_cong0 split: prod.splits)

lemma valid_below_children:
  assumes v: "node_at (nodes st) p = Some n" and y: "prefix p y" "valid_ptr st y" "y \<noteq> p"
  shows "\<exists>c \<in> set (child_ptrs st p). prefix c y"
proof -
  obtain r where r: "y = p @ r" "r \<noteq> []" using y by (auto simp: prefix_def)
  then obtain k r' where kr: "r = k # r'" by (cases r) auto
  have pne: "p \<noteq> []" using v by (rule node_at_valid_nonempty)
  obtain m where "node_at (nodes st) (p @ k # r') = Some m"
    using y(2) r kr by (auto simp: valid_ptr_def)
  then have "node_at (children n) (k # r') = Some m"
    using v pne by (simp add: node_at_append)
  then have "k < length (children n)" by (rule node_at_Cons_valid)
  then have "p @ [k] \<in> set (child_ptrs st p)" using v by (simp add: child_ptrs_eq)
  moreover have "prefix (p @ [k]) y" using r kr by simp
  ultimately show ?thesis by blast
qed

lemma valid_below_leaf:
  assumes v: "node_at (nodes st) p = Some n" and l: "is_leaf n" and y: "prefix p y" "valid_ptr st y"
  shows "y = p"
proof (rule ccontr)
  assume "y \<noteq> p"
  from valid_below_children[OF v y this] show False
    using v l by (simp add: child_ptrs_eq is_leaf_children)
qed

declare gather_loop.simps [simp del]

lemma gather_loop_done:
  "gather_done D st0 st \<Longrightarrow> [] \<notin> set stack \<Longrightarrow>
   \<exists>D'. gather_done D' st0 (gather_loop stack st) \<and> D \<subseteq> D'
        \<and> (\<forall>s \<in> set stack. \<forall>y. prefix s y \<and> valid_ptr st0 y \<longrightarrow> y \<in> D')"
proof (induction stack st arbitrary: D rule: gather_loop.induct)
  case (1 st)
  then show ?case by (auto simp: gather_loop.simps)
next
  case (2 p stack st)
  note vs = gather_done_valid[OF "2.prems"(1)]
  have pne: "p \<noteq> []" and sne: "[] \<notin> set stack" using "2.prems"(2) by auto
  note gl = gather_loop.simps(2)[of p stack st]
  show ?case
  proof (cases "node_at (nodes st) p")
    case None
    from "2.IH"(1)[OF None "2.prems"(1) sne] obtain D' where
      D': "gather_done D' st0 (gather_loop stack st)" "D \<subseteq> D'"
        "\<forall>s \<in> set stack. \<forall>y. prefix s y \<and> valid_ptr st0 y \<longrightarrow> y \<in> D'"
      by blast
    have "\<not> valid_ptr st0 y" if pre: "prefix p y" for y
    proof
      assume "valid_ptr st0 y"
      then obtain m where m: "node_at (nodes st) y = Some m" using vs by (auto simp: valid_ptr_def)
      obtain r where "y = p @ r" using pre by (auto simp: prefix_def)
      then show False using m None pne
        by (cases "r = []") (auto simp: node_at_append)
    qed
    moreover have e: "gather_loop (p # stack) st = gather_loop stack st"
      using None by (simp add: gl)
    ultimately show ?thesis unfolding e using D' by (intro exI[of _ D']) auto
  next
    case (Some pn)
    let ?st' = "gather_node st p"
    have g: "gather_done (insert p D) st0 ?st'" using "2.prems"(1) by (rule gather_done_step)
    have cne: "[] \<notin> set (rev (child_ptrs ?st' p) @ stack)"
      using sne by (auto simp: child_ptrs_def)
    note vs' = gather_done_valid[OF g]
    have "valid_ptr st p" using Some by (simp add: valid_ptr_def)
    then have "valid_ptr ?st' p" by (simp only: vs vs')
    then obtain n' where n': "node_at (nodes ?st') p = Some n'"
      unfolding valid_ptr_def by blast
    then have nf: "node_of ?st' p = n'" by (simp add: node_of_def)
    show ?thesis
    proof (cases "is_leaf n'")
      case True
      have "\<exists>D'. gather_done D' st0 (gather_loop stack ?st') \<and> insert p D \<subseteq> D'
          \<and> (\<forall>s \<in> set stack. \<forall>y. prefix s y \<and> valid_ptr st0 y \<longrightarrow> y \<in> D')"
      proof (rule "2.IH"(2)[OF Some refl _ g sne])
        show "is_leaf (node_of ?st' p)" using True nf by simp
      qed
      then obtain D' where
        D': "gather_done D' st0 (gather_loop stack ?st')" "insert p D \<subseteq> D'"
          "\<forall>s \<in> set stack. \<forall>y. prefix s y \<and> valid_ptr st0 y \<longrightarrow> y \<in> D'"
        by blast
      have e: "gather_loop (p # stack) st = gather_loop stack ?st'"
        using Some True nf by (simp add: gl Let_def)
      have "y \<in> D'" if pre: "prefix p y" and vy: "valid_ptr st0 y" for y
      proof -
        have "valid_ptr ?st' y" using vy by (simp only: vs')
        from valid_below_leaf[OF n' True pre this] show ?thesis using D'(2) by auto
      qed
      then show ?thesis unfolding e using D' by (intro exI[of _ D']) auto
    next
      case False
      have "\<exists>D'. gather_done D' st0 (gather_loop (rev (child_ptrs ?st' p) @ stack) ?st')
          \<and> insert p D \<subseteq> D'
          \<and> (\<forall>s \<in> set (rev (child_ptrs ?st' p) @ stack).
                \<forall>y. prefix s y \<and> valid_ptr st0 y \<longrightarrow> y \<in> D')"
      proof (rule "2.IH"(3)[OF Some refl _ g cne])
        show "\<not> is_leaf (node_of ?st' p)" using False nf by simp
      qed
      then obtain D' where
        D': "gather_done D' st0 (gather_loop (rev (child_ptrs ?st' p) @ stack) ?st')" "insert p D \<subseteq> D'"
          "\<forall>s \<in> set (rev (child_ptrs ?st' p) @ stack). \<forall>y. prefix s y \<and> valid_ptr st0 y \<longrightarrow> y \<in> D'"
        by blast
      have "y \<in> D'" if pre: "prefix p y" and vy: "valid_ptr st0 y" for y
      proof (cases "y = p")
        case True
        then show ?thesis using D'(2) by auto
      next
        case ne: False
        have "valid_ptr ?st' y" using vy by (simp only: vs')
        from valid_below_children[OF n' pre this ne]
        obtain c where "c \<in> set (child_ptrs ?st' p)" "prefix c y" by blast
        then show ?thesis using D'(3) vy by auto
      qed
      moreover have e: "gather_loop (p # stack) st = gather_loop (rev (child_ptrs ?st' p) @ stack) ?st'"
        using Some False nf by (simp add: gl Let_def)
      ultimately show ?thesis unfolding e using D' by (intro exI[of _ D']) auto
    qed
  qed
qed

lemma gather_fold_done:
  "gather_done D st0 st \<Longrightarrow>
   \<exists>D'. gather_done D' st0 (fold (\<lambda>i. gather_radiosity [i]) rs st) \<and> D \<subseteq> D'
        \<and> (\<forall>r \<in> set rs. \<forall>y. prefix [r] y \<and> valid_ptr st0 y \<longrightarrow> y \<in> D')"
proof (induction rs arbitrary: D st)
  case Nil
  then show ?case by auto
next
  case (Cons r rs)
  have "[] \<notin> set [[r]]" by simp
  from gather_loop_done[OF Cons.prems this] obtain D1 where
    "gather_done D1 st0 (gather_loop [[r]] st)" "D \<subseteq> D1"
    "\<forall>s \<in> set [[r]]. \<forall>y. prefix s y \<and> valid_ptr st0 y \<longrightarrow> y \<in> D1"
    by blast
  then have D1: "gather_done D1 st0 (gather_radiosity [r] st)" "D \<subseteq> D1"
      "\<forall>y. prefix [r] y \<and> valid_ptr st0 y \<longrightarrow> y \<in> D1"
    by (simp_all add: gather_radiosity_def)
  from Cons.IH[OF D1(1)] obtain D' where
    D': "gather_done D' st0 (fold (\<lambda>i. gather_radiosity [i]) rs (gather_radiosity [r] st))" "D1 \<subseteq> D'"
      "\<forall>r \<in> set rs. \<forall>y. prefix [r] y \<and> valid_ptr st0 y \<longrightarrow> y \<in> D'"
    by blast
  have "\<forall>r' \<in> set (r # rs). \<forall>y. prefix [r'] y \<and> valid_ptr st0 y \<longrightarrow> y \<in> D'"
    using D1(3) D'(2,3) by auto
  moreover have "D \<subseteq> D'" using D1(2) D'(2) by blast
  ultimately show ?case using D'(1) by (intro exI[of _ D']) simp
qed

lemma gather_sweep_obs:
  "obs_at (nodes (gather_sweep st)) x =
     map_option (\<lambda>(i, k). (i\<lparr>rad_gather := gathered_radiosity st i\<rparr>, k)) (obs_at (nodes st) x)"
  and gather_sweep_frame:
  "subdivided_tris (gather_sweep st) = subdivided_tris st" "mesh (gather_sweep st) = mesh st"
proof -
  from gather_fold_done[OF gather_done_refl, of st "[0..<length (nodes st)]"] obtain D' where
    D': "gather_done D' st (gather_sweep st)"
      "\<forall>r \<in> set [0..<length (nodes st)]. \<forall>y. prefix [r] y \<and> valid_ptr st y \<longrightarrow> y \<in> D'"
    unfolding gather_sweep_def by blast
  have "y \<in> D'" if vy: "valid_ptr st y" for y
  proof -
    obtain m where m: "node_at (nodes st) y = Some m" using vy by (auto simp: valid_ptr_def)
    then obtain k r where y: "y = k # r" by (cases y) auto
    then have "k < length (nodes st)" using m node_at_Cons_valid by blast
    then show ?thesis using D'(2) vy y by auto
  qed
  then have "gather_done UNIV st (gather_sweep st)"
    by (intro gather_done_mono_valid[OF D'(1)]) simp
  then show "obs_at (nodes (gather_sweep st)) x =
     map_option (\<lambda>(i, k). (i\<lparr>rad_gather := gathered_radiosity st i\<rparr>, k)) (obs_at (nodes st) x)"
    and "subdivided_tris (gather_sweep st) = subdivided_tris st" "mesh (gather_sweep st) = mesh st"
    by (simp_all add: gather_done_def)
qed

text \<open>
  The value of \<open>rad_down\<close> with which push--pull reaches the node at a pointer, when the
  root above it is entered with \<open>rd\<close>: the sum of \<open>rad_gather\<close> over its proper ancestors,
  each added on the way down.
\<close>

fun pushed_down :: "quadnode list \<Rightarrow> ptr \<Rightarrow> color \<Rightarrow> color" where
  "pushed_down F [] rd = rd"
| "pushed_down F [i] rd = rd"
| "pushed_down F (i # j # js) rd =
     pushed_down (children (F ! i)) (j # js) (color_add (rad_gather (info (F ! i))) rd)"

lemma push_pull_radiosity_eq:
  "push_pull_radiosity n rd =
     (let cs' = map (\<lambda>c. snd (push_pull_radiosity c (color_add (rad_gather (info n)) rd))) (children n);
          v = (if is_leaf n then color_add (color_add (emission (info n)) (rad_gather (info n))) rd
               else color_div (color_sum (map (\<lambda>c. rad_shoot (info c)) cs')) 4)
      in (v, Quadnode ((info n)\<lparr>rad_shoot := v\<rparr>) cs'))"
proof (induction n arbitrary: rd)
  case (Quadnode i cs)
  show ?case
  proof (cases "is_leaf (Quadnode i cs)")
    case True
    then show ?thesis by (simp add: Let_def is_leaf_children)
  next
    case False
    let ?rd = "color_add (rad_gather i) rd"
    have f: "fst (push_pull_radiosity c ?rd) = rad_shoot (info (snd (push_pull_radiosity c ?rd)))"
      if "c \<in> set cs" for c
      using Quadnode[OF that, of ?rd] by (simp add: Let_def)
    have "map fst (map (\<lambda>c. push_pull_radiosity c ?rd) cs)
        = map (\<lambda>c. rad_shoot (info c)) (map (\<lambda>c. snd (push_pull_radiosity c ?rd)) cs)"
      using f by simp
    moreover have "fold (\<lambda>x acc. color_add acc (fst x)) xs color_zero = color_sum (map fst xs)"
      for xs :: "(color \<times> quadnode) list"
      by (simp add: color_sum_def fold_map comp_def)
    ultimately have "fold (\<lambda>x acc. color_add acc (fst x)) (map (\<lambda>c. push_pull_radiosity c ?rd) cs) color_zero
        = color_sum (map (\<lambda>c. rad_shoot (info c)) (map (\<lambda>c. snd (push_pull_radiosity c ?rd)) cs))"
      by (simp only:)
    then show ?thesis using False by (simp add: Let_def comp_def)
  qed
qed

declare push_pull_radiosity.simps [simp del]

lemma node_at_push_pull:
  "node_at (map (\<lambda>p. snd (push_pull_radiosity p rd)) F) x =
     map_option (\<lambda>n. snd (push_pull_radiosity n (pushed_down F x rd))) (node_at F x)"
proof (induction F x arbitrary: rd rule: node_at.induct)
  case (3 F i j js)
  show ?case
  proof (cases "i < length F")
    case True
    have "children (snd (push_pull_radiosity (F ! i) rd))
        = map (\<lambda>p. snd (push_pull_radiosity p (color_add (rad_gather (info (F ! i))) rd))) (children (F ! i))"
      by (subst push_pull_radiosity_eq) (simp add: Let_def)
    then show ?thesis using True 3[OF True] by simp
  qed simp
qed simp_all

text \<open>What push--pull stores in \<open>rad_shoot\<close> at \<open>x\<close>, in terms of the state \<open>st2\<close> it leaves.\<close>

definition pulled_radiosity ::
  "('tri, 'mesh) state \<Rightarrow> ('tri, 'mesh) state \<Rightarrow> ptr \<Rightarrow> qinfo \<Rightarrow> nat \<Rightarrow> color" where
  "pulled_radiosity st1 st2 x i k =
     (if k = 0
      then color_add (color_add (emission i) (rad_gather i)) (pushed_down (nodes st1) x color_zero)
      else color_div (color_sum (map (\<lambda>j. rad_shoot (info_of st2 (x @ [j]))) [0..<k])) 4)"

lemma push_pull_sweep_obs:
  assumes "obs_at (nodes st) x = Some (i, k)"
  shows "obs_at (nodes (push_pull_sweep st)) x =
     Some (i\<lparr>rad_shoot := pulled_radiosity st (push_pull_sweep st) x i k\<rparr>, k)"
proof -
  let ?st2 = "push_pull_sweep st"
  obtain n where n: "node_at (nodes st) x = Some n" "info n = i" "length (children n) = k"
    using assms by (auto simp: obs_at_def obs_def)
  let ?rd = "pushed_down (nodes st) x color_zero"
  let ?n' = "snd (push_pull_radiosity n ?rd)"
  have n': "node_at (nodes ?st2) x = Some ?n'"
    using n(1) by (simp add: push_pull_sweep_def node_at_push_pull)
  have xne: "x \<noteq> []" using n(1) by (rule node_at_valid_nonempty)
  let ?cs' = "map (\<lambda>c. snd (push_pull_radiosity c (color_add (rad_gather (info n)) ?rd))) (children n)"
  have c: "children ?n' = ?cs'" by (subst push_pull_radiosity_eq) (simp add: Let_def)
  have "map (\<lambda>j. rad_shoot (info_of ?st2 (x @ [j]))) [0..<k] = map (\<lambda>c. rad_shoot (info c)) ?cs'"
  proof (intro nth_equalityI)
    show "length (map (\<lambda>j. rad_shoot (info_of ?st2 (x @ [j]))) [0..<k]) = length (map (\<lambda>c. rad_shoot (info c)) ?cs')"
      using n(3) by simp
    fix j assume "j < length (map (\<lambda>j. rad_shoot (info_of ?st2 (x @ [j]))) [0..<k])"
    then have j: "j < k" by simp
    then have "node_at (nodes ?st2) (x @ [j]) = Some (?cs' ! j)"
      using n' xne c n(3) by (simp add: node_at_append del: nth_map)
    then have "info_of ?st2 (x @ [j]) = info (?cs' ! j)" by (rule info_of_valid)
    moreover have "map (\<lambda>c. rad_shoot (info c)) ?cs' ! j = rad_shoot (info (?cs' ! j))"
      using j n(3) by (intro nth_map) simp
    moreover have "map (\<lambda>j. rad_shoot (info_of ?st2 (x @ [j]))) [0..<k] ! j
        = rad_shoot (info_of ?st2 (x @ [j]))"
      using j by simp
    ultimately show "map (\<lambda>j. rad_shoot (info_of ?st2 (x @ [j]))) [0..<k] ! j = map (\<lambda>c. rad_shoot (info c)) ?cs' ! j"
      by (simp only:)
  qed
  moreover have "is_leaf n \<longleftrightarrow> k = 0" using n(3) by (auto simp: is_leaf_children)
  ultimately have "info ?n' = i\<lparr>rad_shoot := pulled_radiosity st ?st2 x i k\<rparr>"
    using n(2) by (subst push_pull_radiosity_eq) (simp add: Let_def pulled_radiosity_def)
  then show ?thesis using n' c n(3) by (simp add: obs_at_def obs_def)
qed

lemma push_pull_sweep_frame [simp]:
  "subdivided_tris (push_pull_sweep st) = subdivided_tris st" "mesh (push_pull_sweep st) = mesh st"
  by (simp_all add: push_pull_sweep_def)

lemma push_pull_sweep_valid: "valid_ptr (push_pull_sweep st) x = valid_ptr st x"
  by (cases "node_at (nodes st) x") (simp_all add: valid_ptr_def push_pull_sweep_def node_at_push_pull)

lemma gathered_radiosity_no_links:
  "gathering_from i = [] \<Longrightarrow> gathered_radiosity st i = color_zero"
  by (simp add: gathered_radiosity_def color_sum_def color_mul_def color_zero_def)

text \<open>
  C2.  One iteration of \<^verbatim>\<open>solve_system\<close> is the gather sweep followed by the push--pull
  sweep.  The gather sweep changes nothing but \<open>rad_gather\<close>, and at every node of the
  hierarchy it stores \<open>rho\<close> times the sum, over the links of that node, of the form factor
  times the \<open>rad_shoot\<close> of the shooter; that is black when the node has no links.  The
  push--pull sweep then changes nothing but \<open>rad_shoot\<close>: a leaf gets \<open>emission +
  rad_gather + \<close> the sum of \<open>rad_gather\<close> over its ancestors, an internal node gets the sum
  of the new \<open>rad_shoot\<close> of its children (\<open>k\<close> of them, four in a hierarchy built by
  \<^verbatim>\<open>subdivide\<close>) divided by 4.
\<close>

theorem solve_iteration_spec:
  "solve_iteration st = push_pull_sweep (gather_sweep st)
   \<and> (\<forall>x i k. obs_at (nodes st) x = Some (i, k) \<longrightarrow>
         obs_at (nodes (gather_sweep st)) x = Some (i\<lparr>rad_gather := gathered_radiosity st i\<rparr>, k)
         \<and> (gathering_from i = [] \<longrightarrow> gathered_radiosity st i = color_zero))
   \<and> (\<forall>x i k. obs_at (nodes (gather_sweep st)) x = Some (i, k) \<longrightarrow>
         obs_at (nodes (solve_iteration st)) x =
           Some (i\<lparr>rad_shoot := pulled_radiosity (gather_sweep st) (solve_iteration st) x i k\<rparr>, k))"
  by (simp add: solve_iteration_def gather_sweep_obs push_pull_sweep_obs
      gathered_radiosity_no_links)

theorem solve_iteration_spec_witness:
  "obs_at (nodes (solve_iteration ex_linked)) [0] =
     Some ((info ex_receiver)\<lparr>rad_gather := \<lparr>col_r = 1/8, col_g = 0, col_b = 0, col_a = 0\<rparr>,
                              rad_shoot := \<lparr>col_r = 9/8, col_g = 0, col_b = 0, col_a = 0\<rparr>\<rparr>, 0)
   \<and> obs_at (nodes (solve_iteration ex_subdivided)) [0] =
     Some ((info (ex_root 0))\<lparr>rad_gather := color_zero,
             rad_shoot := color_div (color_sum (map (\<lambda>j.
                 rad_shoot (info_of (solve_iteration ex_subdivided) ([0] @ [j]))) [0..<4])) 4\<rparr>, 4)"
proof -
  have o0: "obs_at (nodes ex_linked) [0] = Some (info ex_receiver, 0)"
    by (simp add: obs_at_def obs_def ex_linked_def ex_receiver_def map_info_def ex_root_def)
  have s: "info_of ex_linked [Suc 0] = info ex_shooter"
    by (simp add: info_of_def node_of_def ex_linked_def)
  have g: "gathered_radiosity ex_linked (info ex_receiver) = \<lparr>col_r = 1/8, col_g = 0, col_b = 0, col_a = 0\<rparr>"
    by (simp add: gathered_radiosity_def ex_receiver_def map_info_def ex_link_def s color_sum_def)
       (simp add: ex_shooter_def map_info_def ex_root_def ex_red_def ex_grey_def color_mul_def
         color_add_def color_scale_def color_zero_def)
  from solve_iteration_spec[of ex_linked, THEN conjunct2, THEN conjunct1, rule_format, OF o0] g
  have o1: "obs_at (nodes (gather_sweep ex_linked)) [0] =
      Some ((info ex_receiver)\<lparr>rad_gather := \<lparr>col_r = 1/8, col_g = 0, col_b = 0, col_a = 0\<rparr>\<rparr>, 0)"
    by simp
  have p: "pulled_radiosity (gather_sweep ex_linked) (solve_iteration ex_linked) [0]
      ((info ex_receiver)\<lparr>rad_gather := \<lparr>col_r = 1/8, col_g = 0, col_b = 0, col_a = 0\<rparr>\<rparr>) 0
      = \<lparr>col_r = 9/8, col_g = 0, col_b = 0, col_a = 0\<rparr>"
    by (simp add: pulled_radiosity_def ex_receiver_def map_info_def ex_root_def ex_red_def
        color_add_def color_zero_def)
  from solve_iteration_spec[of ex_linked, THEN conjunct2, THEN conjunct2, rule_format, OF o1] p
  have 1: "obs_at (nodes (solve_iteration ex_linked)) [0] =
     Some ((info ex_receiver)\<lparr>rad_gather := \<lparr>col_r = 1/8, col_g = 0, col_b = 0, col_a = 0\<rparr>,
                              rad_shoot := \<lparr>col_r = 9/8, col_g = 0, col_b = 0, col_a = 0\<rparr>\<rparr>, 0)"
    by simp
  have q0: "obs_at (nodes ex_subdivided) [0] = Some (info (ex_root 0), 4)"
    by (simp add: obs_at_def obs_def ex_subdivided_nodes)
  have e: "gathering_from (info (ex_root 0)) = []" by (simp add: ex_root_def)
  from solve_iteration_spec[of ex_subdivided, THEN conjunct2, THEN conjunct1, rule_format, OF q0] e
  have q1: "obs_at (nodes (gather_sweep ex_subdivided)) [0] =
      Some ((info (ex_root 0))\<lparr>rad_gather := color_zero\<rparr>, 4)"
    by simp
  from solve_iteration_spec[of ex_subdivided, THEN conjunct2, THEN conjunct2, rule_format, OF q1]
  have 2: "obs_at (nodes (solve_iteration ex_subdivided)) [0] =
     Some ((info (ex_root 0))\<lparr>rad_gather := color_zero,
             rad_shoot := color_div (color_sum (map (\<lambda>j.
                 rad_shoot (info_of (solve_iteration ex_subdivided) ([0] @ [j]))) [0..<4])) 4\<rparr>, 4)"
    by (simp add: pulled_radiosity_def del: upt_Suc)
  show ?thesis using 1 2 by blast
qed

section \<open>Invariants of the hierarchy and of the link graph\<close>

text \<open>
  What holds of the node at \<open>x\<close> with fields \<open>i\<close> and \<open>k\<close> children: no or four children;
  \<open>root_tri_id\<close> is the index of the root above; a root has its index as \<open>tri_id\<close>, any other
  node a \<open>tri_id\<close> from the root-triangle count up to \<^verbatim>\<open>next_triangle_id()\<close>; every link
  points to a node of the hierarchy, under another root; an internal node passed the area
  guard of \<^verbatim>\<open>subdivide\<close>; and areas are not negative when those of the scene are not.
\<close>

definition areas_nonneg :: "('tri, 'mesh) env \<Rightarrow> bool" where
  "areas_nonneg env \<longleftrightarrow> (\<forall>t \<in> set (tree_triangles env). 0 \<le> tri_area env t)"

definition node_ok ::
  "('tri, 'mesh) env \<Rightarrow> ('tri, 'mesh) state \<Rightarrow> ptr \<Rightarrow> qinfo \<Rightarrow> nat \<Rightarrow> bool" where
  "node_ok env st x i k \<longleftrightarrow>
     (k = 0 \<or> k = 4)
     \<and> root_tri_id i = hd x
     \<and> (if length x = 1 then tri_id i = hd x
         else length (tree_triangles env) \<le> tri_id i \<and> tri_id i < next_triangle_id env st)
     \<and> (\<forall>l \<in> set (gathering_from i). valid_ptr st (link_q l) \<and> hd (link_q l) \<noteq> hd x)
     \<and> (k \<noteq> 0 \<longrightarrow> A_eps env \<le> area i / 4)
     \<and> (areas_nonneg env \<longrightarrow> 0 \<le> area i)"

definition wf_state :: "('tri, 'mesh) env \<Rightarrow> ('tri, 'mesh) state \<Rightarrow> bool" where
  "wf_state env st \<longleftrightarrow>
     length (nodes st) = length (tree_triangles env)
     \<and> (\<forall>x i k. obs_at (nodes st) x = Some (i, k) \<longrightarrow> node_ok env st x i k)
     \<and> (\<forall>x y i j k k'. obs_at (nodes st) x = Some (i, k) \<and> obs_at (nodes st) y = Some (j, k')
            \<and> tri_id i = tri_id j \<longrightarrow> x = y)"

text \<open>The part of a node that the invariant reads.\<close>

definition skeleton :: "qinfo \<times> nat \<Rightarrow> nat \<times> nat \<times> real \<times> linknode list \<times> nat" where
  "skeleton ob = (root_tri_id (fst ob), tri_id (fst ob), area (fst ob), gathering_from (fst ob), snd ob)"

lemma wf_skeleton:
  assumes w: "wf_state env st"
    and o: "\<And>x. map_option skeleton (obs_at (nodes st') x) = map_option skeleton (obs_at (nodes st) x)"
    and l: "length (nodes st') = length (nodes st)"
      "length (subdivided_tris st') = length (subdivided_tris st)"
  shows "wf_state env st'"
proof -
  have v: "valid_ptr st' x = valid_ptr st x" for x
    using o[of x] unfolding valid_ptr_def obs_at_None[symmetric] by (metis option.map_disc_iff)
  have k: "\<exists>i0. obs_at (nodes st) x = Some (i0, k) \<and> skeleton (i, k) = skeleton (i0, k)"
    if "obs_at (nodes st') x = Some (i, k)" for x i k
    using o[of x] that by (cases "obs_at (nodes st) x") (auto simp: skeleton_def)
  have n: "next_triangle_id env st' = next_triangle_id env st"
    using l by (simp add: next_triangle_id_def)
  show ?thesis
    unfolding wf_state_def
  proof (intro conjI allI impI)
    show "length (nodes st') = length (tree_triangles env)" using w l by (simp add: wf_state_def)
  next
    fix x i k assume a: "obs_at (nodes st') x = Some (i, k)"
    from k[OF a] obtain i0 where i0: "obs_at (nodes st) x = Some (i0, k)" "skeleton (i, k) = skeleton (i0, k)"
      by blast
    then have "node_ok env st x i0 k" using w by (simp add: wf_state_def)
    then show "node_ok env st' x i k"
      using i0(2) by (simp add: node_ok_def skeleton_def v n)
  next
    fix x y i j k k'
    assume a: "obs_at (nodes st') x = Some (i, k) \<and> obs_at (nodes st') y = Some (j, k') \<and> tri_id i = tri_id j"
    from k[of x i k] k[of y j k'] a obtain i0 j0 where
      "obs_at (nodes st) x = Some (i0, k)" "obs_at (nodes st) y = Some (j0, k')" "tri_id i0 = tri_id j0"
      by (auto simp: skeleton_def)
    then show "x = y" using w unfolding wf_state_def by blast
  qed
qed

text \<open>Links are added or removed, and every link added is as the invariant wants it.\<close>

lemma wf_relinked:
  assumes w: "wf_state env st"
    and o: "\<And>x. obs_at (nodes st') x = relinked g (nodes st) x"
    and l: "length (nodes st') = length (nodes st)"
      "length (subdivided_tris st') = length (subdivided_tris st)"
    and g: "\<And>x i k l. obs_at (nodes st) x = Some (i, k) \<Longrightarrow> l \<in> set (g x (gathering_from i))
              \<Longrightarrow> l \<in> set (gathering_from i) \<or> (valid_ptr st (link_q l) \<and> hd (link_q l) \<noteq> hd x)"
  shows "wf_state env st'"
proof -
  have v: "valid_ptr st' x = valid_ptr st x" for x
    using o by (rule valid_ptr_relinked)
  have n: "next_triangle_id env st' = next_triangle_id env st"
    using l by (simp add: next_triangle_id_def)
  have k: "\<exists>i0. obs_at (nodes st) x = Some (i0, k) \<and> i = i0\<lparr>gathering_from := g x (gathering_from i0)\<rparr>"
    if "obs_at (nodes st') x = Some (i, k)" for x i k
    using that unfolding o relinked_def by (cases "obs_at (nodes st) x") auto
  show ?thesis
    unfolding wf_state_def
  proof (intro conjI allI impI)
    show "length (nodes st') = length (tree_triangles env)" using w l by (simp add: wf_state_def)
  next
    fix x i k assume a: "obs_at (nodes st') x = Some (i, k)"
    from k[OF a] obtain i0 where i0: "obs_at (nodes st) x = Some (i0, k)"
      "i = i0\<lparr>gathering_from := g x (gathering_from i0)\<rparr>"
      by blast
    then have ok: "node_ok env st x i0 k" using w by (simp add: wf_state_def)
    have "valid_ptr st (link_q l) \<and> hd (link_q l) \<noteq> hd x" if "l \<in> set (g x (gathering_from i0))" for l
      using g[OF i0(1) that] ok by (auto simp: node_ok_def)
    then show "node_ok env st' x i k"
      using ok i0(2) by (simp add: node_ok_def v n)
  next
    fix x y i j k k'
    assume a: "obs_at (nodes st') x = Some (i, k) \<and> obs_at (nodes st') y = Some (j, k') \<and> tri_id i = tri_id j"
    from k[of x i k] k[of y j k'] a obtain i0 j0 where
      "obs_at (nodes st) x = Some (i0, k)" "obs_at (nodes st) y = Some (j0, k')" "tri_id i0 = tri_id j0"
      by auto
    then show "x = y" using w unfolding wf_state_def by blast
  qed
qed

lemma length_new_tris [simp]: "length (new_tris env st p) = 4"
  by (simp add: new_tris_def split: prod.splits)

lemma subdivide_lengths:
  assumes v: "node_at (nodes st) p = Some pn" and l: "is_leaf pn"
    and a: "\<not> area (info pn) / 4 < A_eps env"
  shows "length (nodes (snd (subdivide env p st))) = length (nodes st)"
    and "next_triangle_id env (snd (subdivide env p st)) = next_triangle_id env st + 4"
  using subdivide_success[OF v l a] by (simp_all add: next_triangle_id_def)

lemma hd_snoc: "p \<noteq> [] \<Longrightarrow> hd (p @ r) = hd p"
  by simp

lemma wf_subdivide_leaf:
  assumes w: "wf_state env st" and v: "node_at (nodes st) p = Some pn" and l: "is_leaf pn"
    and a: "\<not> area (info pn) / 4 < A_eps env"
  shows "wf_state env (snd (subdivide env p st))"
proof -
  let ?st' = "snd (subdivide env p st)"
  let ?N = "length (tree_triangles env)"
  let ?faces = "fst (subdivide4 env (mesh st) (face_id (info pn)))"
  note o = obs_at_subdivide[OF v l a]
  note len = subdivide_lengths[OF v l a]
  have pne: "p \<noteq> []" using v by (rule node_at_valid_nonempty)
  have ip: "info_of st p = info pn" using v by (rule info_of_valid)
  have op: "obs_at (nodes st) p = Some (info pn, 0)"
    using v l by (simp add: obs_at_valid is_leaf_children)
  have okp: "node_ok env st p (info pn) 0" using w op by (simp add: wf_state_def)
  have vs: "valid_ptr st x \<Longrightarrow> valid_ptr ?st' x" for x
    using v by (rule valid_ptr_subdivide)
  have cnew: "obs_at (nodes st) (p @ [j]) = None" for j
    using v l pne by (simp add: obs_at_def node_at_append is_leaf_children)
  have ci: "info (new_children env st p ! j) = child_info (info pn) p ?faces (next_triangle_id env st) j"
    if "j < 4" for j
    using that by (simp add: new_children_nth ip)
  have old: "node_ok env ?st' x i k" if "node_ok env st x i k" for x i k
    using that vs by (auto simp: node_ok_def len)
  have bound: "tri_id i < next_triangle_id env st" if ob: "obs_at (nodes st) x = Some (i, k)" for x i k
  proof -
    have ok: "node_ok env st x i k" using w ob by (simp add: wf_state_def)
    obtain r t where x: "x = r # t" using ob by (cases x) (auto simp: obs_at_def)
    have "r < length (nodes st)"
      using ob x node_at_Cons_valid[of "nodes st" r t] by (auto simp: obs_at_def)
    then show ?thesis
      using ok x w by (auto simp: node_ok_def wf_state_def next_triangle_id_def split: if_splits)
  qed
  show ?thesis
    unfolding wf_state_def
  proof (intro conjI allI impI)
    show "length (nodes ?st') = length (tree_triangles env)" using w len by (simp add: wf_state_def)
  next
    fix x i k assume a1: "obs_at (nodes ?st') x = Some (i, k)"
    consider (p) "x = p" | (c) j where "j < 4" "x = p @ [j]" | (o) "x \<noteq> p" "\<not> (\<exists>j<4. x = p @ [j])"
      by blast
    then show "node_ok env ?st' x i k"
    proof cases
      case p
      then have "i = info pn" "k = 4" using a1 o[of x] by simp_all
      then show ?thesis using old[OF okp] a p by (simp add: node_ok_def)
    next
      case c
      then have "i = child_info (info pn) p ?faces (next_triangle_id env st) j" "k = 0"
        using a1 o[of x] ci by auto
      moreover have "length (tree_triangles env) \<le> next_triangle_id env st"
        by (simp add: next_triangle_id_def)
      ultimately show ?thesis
        using okp c pne by (auto simp: node_ok_def child_info_def len)
    next
      case o
      then have "obs_at (nodes st) x = Some (i, k)"
        using a1 obs_at_subdivide[OF v l a, of x] by (auto split: if_splits)
      then have "node_ok env st x i k" using w by (simp add: wf_state_def)
      then show ?thesis by (rule old)
    qed
  next
    fix x y i j k k'
    assume a1: "obs_at (nodes ?st') x = Some (i, k) \<and> obs_at (nodes ?st') y = Some (j, k') \<and> tri_id i = tri_id j"
    have cls: "(\<exists>m<4. z = p @ [m] \<and> tri_id iz = next_triangle_id env st + m)
          \<or> (obs_at (nodes st) z = Some (iz, kz') \<and> (kz' = kz \<or> z = p))" 
      if "obs_at (nodes ?st') z = Some (iz, kz)" and "kz' = (if z = p then 0 else kz)" for z iz kz kz'
      using that o[of z] ci op by (auto simp: child_info_def split: if_splits)
    from cls[of x i k, OF _ refl] cls[of y j k', OF _ refl] a1
    consider (nn) m m' where "m < 4" "x = p @ [m]" "tri_id i = next_triangle_id env st + m"
          "m' < 4" "y = p @ [m']" "tri_id j = next_triangle_id env st + m'"
      | (no) m kk where "m < 4" "x = p @ [m]" "tri_id i = next_triangle_id env st + m"
          "obs_at (nodes st) y = Some (j, kk)"
      | (on) m kk where "m < 4" "y = p @ [m]" "tri_id j = next_triangle_id env st + m"
          "obs_at (nodes st) x = Some (i, kk)"
      | (oo) kk kk' where "obs_at (nodes st) x = Some (i, kk)" "obs_at (nodes st) y = Some (j, kk')"
      by blast
    then show "x = y"
    proof cases
      case nn
      then show ?thesis using a1 by simp
    next
      case no
      then show ?thesis using a1 bound[OF no(4)] by simp
    next
      case on
      then show ?thesis using a1 bound[OF on(4)] by simp
    next
      case oo
      then show ?thesis using a1 w unfolding wf_state_def by blast
    qed
  qed
qed

lemma wf_subdivide:
  assumes w: "wf_state env st" and v: "valid_ptr st p"
  shows "wf_state env (snd (subdivide env p st))"
proof -
  obtain pn where pn: "node_at (nodes st) p = Some pn" using v by (auto simp: valid_ptr_def)
  show ?thesis
  proof (cases "is_leaf pn \<and> \<not> area (info pn) / 4 < A_eps env")
    case True
    then show ?thesis using wf_subdivide_leaf[OF w pn] by simp
  next
    case False
    then have "snd (subdivide env p st) = st"
      using pn by (cases "is_leaf pn") (auto simp: subdivide_internal subdivide_refused)
    then show ?thesis using w by simp
  qed
qed

lemma obs_at_init:
  "obs_at (nodes (init_state env)) x = Some (i, k) \<Longrightarrow>
   \<exists>r < length (tree_triangles env). x = [r] \<and> k = 0 \<and> root_tri_id i = r \<and> tri_id i = r
      \<and> gathering_from i = [] \<and> area i = tri_area env (tree_triangles env ! r)"
proof (cases x)
  case Nil
  assume "obs_at (nodes (init_state env)) x = Some (i, k)"
  then show ?thesis using Nil by (simp add: obs_at_def)
next
  case (Cons r t)
  assume a: "obs_at (nodes (init_state env)) x = Some (i, k)"
  show ?thesis
  proof (cases t)
    case Nil
    then show ?thesis using a Cons
      by (auto simp: obs_at_def obs_def init_state_def build_nodes_def Let_def split: if_splits)
  next
    case (Cons j js)
    then show ?thesis using a \<open>x = r # t\<close>
      by (auto simp: obs_at_def obs_def init_state_def build_nodes_def Let_def split: if_splits)
  qed
qed

lemma wf_init: "wf_state env (init_state env)"
  unfolding wf_state_def
proof (intro conjI allI impI)
  show "length (nodes (init_state env)) = length (tree_triangles env)"
    by (simp add: init_state_def build_nodes_def)
next
  fix x i k assume "obs_at (nodes (init_state env)) x = Some (i, k)"
  from obs_at_init[OF this] show "node_ok env (init_state env) x i k"
    by (auto simp: node_ok_def areas_nonneg_def)
next
  fix x y i j k k'
  assume "obs_at (nodes (init_state env)) x = Some (i, k) \<and>
    obs_at (nodes (init_state env)) y = Some (j, k') \<and> tri_id i = tri_id j"
  then show "x = y" using obs_at_init[of env x i k] obs_at_init[of env y j k'] by auto
qed

lemma length_nodes_link [simp]: "length (nodes (link env c d st)) = length (nodes st)"
  by (simp add: link_eq)

lemma length_nodes_fold_link [simp]:
  "length (nodes (fold (\<lambda>c. link env (f c) (g c)) cs st)) = length (nodes st)"
  by (induction cs arbitrary: st) simp_all

lemma wf_link:
  assumes w: "wf_state env st" and v: "valid_ptr st q" and h: "hd q \<noteq> hd p"
  shows "wf_state env (link env p q st)"
proof (rule wf_relinked[OF w obs_at_link])
  fix x i k l
  assume "obs_at (nodes st) x = Some (i, k)"
    and "l \<in> set (if x = p then gathering_from i @ [oracle_link env st (info_of st p) q (info_of st q)]
                   else gathering_from i)"
  then show "l \<in> set (gathering_from i) \<or> valid_ptr st (link_q l) \<and> hd (link_q l) \<noteq> hd x"
    using v h by (auto simp: oracle_link_def split: if_splits)
qed simp_all

lemma wf_erase_link: "wf_state env st \<Longrightarrow> wf_state env (erase_link p i st)"
proof (rule wf_relinked[OF _ obs_at_erase_link])
  fix x j k l
  assume "obs_at (nodes st) x = Some (j, k)"
    and "l \<in> set (if x = p then take i (gathering_from j) @ drop (Suc i) (gathering_from j)
                   else gathering_from j)"
  then show "l \<in> set (gathering_from j) \<or> valid_ptr st (link_q l) \<and> hd (link_q l) \<noteq> hd x"
    by (auto split: if_splits dest: in_set_takeD in_set_dropD)
qed (simp_all add: erase_link_def)

lemma wf_root_tri_id:
  "wf_state env st \<Longrightarrow> valid_ptr st x \<Longrightarrow> root_tri_id (info_of st x) = hd x"
proof -
  assume w: "wf_state env st" and "valid_ptr st x"
  then obtain n where n: "node_at (nodes st) x = Some n" by (auto simp: valid_ptr_def)
  then have "node_ok env st x (info n) (length (children n))"
    using w by (simp add: wf_state_def obs_at_valid)
  then show ?thesis using n by (simp add: node_ok_def info_of_valid)
qed

lemma refine_step_state:
  assumes "valid_ptr st p" and "valid_ptr st q"
  shows "fst (refine_step env p q st) = link env p q st
       \<or> fst (refine_step env p q st) = snd (subdivide env q st)
       \<or> fst (refine_step env p q st) = snd (subdivide env p st)"
proof -
  obtain pn qn where pn: "node_at (nodes st) p = Some pn" and qn: "node_at (nodes st) q = Some qn"
    using assms by (auto simp: valid_ptr_def)
  have "subdivide env p st = (False, st') \<Longrightarrow> st' = st" for st'
    using subdivide_fst[OF pn, of env] subdivide_refused[OF pn, of env] by auto
  moreover have "subdivide env q st = (False, st') \<Longrightarrow> st' = st" for st'
    using subdivide_fst[OF qn, of env] subdivide_refused[OF qn, of env] by auto
  ultimately show ?thesis
    by (auto simp: refine_step_def Let_def split: prod.splits bool.splits)
qed

lemma wf_refine_step:
  assumes w: "wf_state env st" and v: "valid_ptr st p" "valid_ptr st q"
    and r: "root_tri_id (info_of st p) \<noteq> root_tri_id (info_of st q)"
  shows "wf_state env (fst (refine_step env p q st))"
proof -
  have "hd q \<noteq> hd p" using r wf_root_tri_id[OF w] v by auto
  then show ?thesis
    using refine_step_state[OF v, of env] wf_link[OF w v(2)] wf_subdivide[OF w] v by metis
qed

lemma wf_shape_ok: "wf_state env st \<Longrightarrow> shape_ok (nodes st)"
  by (auto simp: wf_state_def shape_ok_def node_ok_def)

lemma wf_link_target:
  assumes w: "wf_state env st" and v: "node_at (nodes st) p = Some pn"
    and l: "l \<in> set (gathering_from (info pn))"
  shows "valid_ptr st (link_q l)" and "hd (link_q l) \<noteq> hd p"
proof -
  have "node_ok env st p (info pn) (length (children pn))"
    using w v by (simp add: wf_state_def obs_at_valid)
  then show "valid_ptr st (link_q l)" and "hd (link_q l) \<noteq> hd p"
    using l by (auto simp: node_ok_def)
qed

lemma wf_refine_link:
  assumes w: "wf_state env st" and vp: "node_at (nodes st) p = Some pn"
    and l: "l \<in> set (gathering_from (info pn))"
  shows "wf_state env (snd (refine_link env p l st))"
proof -
  let ?q = "link_q l"
  note t = wf_link_target[OF w vp l]
  obtain qn where vq: "node_at (nodes st) ?q = Some qn" using t(1) by (auto simp: valid_ptr_def)
  have vpp: "valid_ptr st p" using vp by (simp add: valid_ptr_def)
  note s = wf_shape_ok[OF w]
  note sp = shape_ok_node[OF s vp] and sq = shape_ok_node[OF s vq]
  have pne: "p \<noteq> []" using vp by (rule node_at_valid_nonempty)
  have qne: "?q \<noteq> []" using vq by (rule node_at_valid_nonempty)
  obtain b st' where r: "refine_link env p l st = (b, st')"
    by (cases "refine_link env p l st")
  note eq = refine_link_eq[OF vp vq, of env, unfolded Let_def r]
  have "st' = st
      \<or> (\<not> (is_leaf pn \<and> area (info pn) / 4 < A_eps env) \<and>
         st' = fold (\<lambda>c. link env c ?q) (child_ptrs (snd (subdivide env p st)) p) (snd (subdivide env p st)))
      \<or> (\<not> (is_leaf qn \<and> area (info qn) / 4 < A_eps env) \<and>
         st' = fold (\<lambda>c. link env p c) (child_ptrs (snd (subdivide env ?q st)) ?q) (snd (subdivide env ?q st)))"
    using eq by (auto split: if_splits)
  then consider (keep) "snd (refine_link env p l st) = st"
    | (recv) "\<not> (is_leaf pn \<and> area (info pn) / 4 < A_eps env)"
        "snd (refine_link env p l st) =
           fold (\<lambda>c. link env c ?q) (child_ptrs (snd (subdivide env p st)) p) (snd (subdivide env p st))"
    | (shoot) "\<not> (is_leaf qn \<and> area (info qn) / 4 < A_eps env)"
        "snd (refine_link env p l st) =
           fold (\<lambda>c. link env p c) (child_ptrs (snd (subdivide env ?q st)) ?q) (snd (subdivide env ?q st))"
    unfolding r by auto
  then show ?thesis
  proof cases
    case keep
    then show ?thesis using w by simp
  next
    case recv
    let ?st1 = "snd (subdivide env p st)"
    let ?st' = "snd (refine_link env p l st)"
    note o = refine_link_receiver[OF vp t(1) sp recv(1) refl recv(2)]
    have w1: "wf_state env ?st1" using w vpp by (rule wf_subdivide)
    have v1: "valid_ptr ?st1 ?q" using vp t(1) by (rule valid_ptr_subdivide)
    show ?thesis
    proof (rule wf_relinked[OF w1 o(1)])
      show "length (nodes ?st') = length (nodes ?st1)" unfolding recv(2) by simp
      show "length (subdivided_tris ?st') = length (subdivided_tris ?st1)" using o(2) by simp
    next
      fix x i k l'
      assume "obs_at (nodes ?st1) x = Some (i, k)"
        and "l' \<in> set (if x \<in> set (map (\<lambda>k. p @ [k]) [0..<4])
               then gathering_from i @ [oracle_link env ?st1 (info_of ?st1 x) ?q (info_of ?st1 ?q)]
               else gathering_from i)"
      then show "l' \<in> set (gathering_from i) \<or> valid_ptr ?st1 (link_q l') \<and> hd (link_q l') \<noteq> hd x"
        using v1 t(2) pne by (auto simp: oracle_link_def split: if_splits)
    qed
  next
    case shoot
    let ?st1 = "snd (subdivide env ?q st)"
    let ?st' = "snd (refine_link env p l st)"
    note o = refine_link_shooter[OF vq vpp sq shoot(1) refl shoot(2)]
    have w1: "wf_state env ?st1" using w t(1) by (rule wf_subdivide)
    note cv = children_valid_subdivide[OF vq sq shoot(1)]
    show ?thesis
    proof (rule wf_relinked[OF w1 o(1)])
      show "length (nodes ?st') = length (nodes ?st1)" unfolding shoot(2) by simp
      show "length (subdivided_tris ?st') = length (subdivided_tris ?st1)" using o(2) by simp
    next
      fix x i k l'
      assume "obs_at (nodes ?st1) x = Some (i, k)"
        and "l' \<in> set (if x = p
               then gathering_from i @ map (\<lambda>k. oracle_link env ?st1 (info_of ?st1 p) (?q @ [k])
                                                (info_of ?st1 (?q @ [k]))) [0..<4]
               else gathering_from i)"
      then show "l' \<in> set (gathering_from i) \<or> valid_ptr ?st1 (link_q l') \<and> hd (link_q l') \<noteq> hd x"
        using cv t(2) qne by (auto simp: oracle_link_def split: if_splits)
    qed
  qed
qed

lemma wf_gather_node: "wf_state env st \<Longrightarrow> wf_state env (gather_node st p)"
proof (rule wf_skeleton)
  fix x
  show "map_option skeleton (obs_at (nodes (gather_node st p)) x) = map_option skeleton (obs_at (nodes st) x)"
    by (cases "obs_at (nodes st) x") (auto simp: gather_node_eq obs_at_update_map_info skeleton_def)
qed (simp_all add: gather_node_eq)

lemma wf_push_pull_sweep: "wf_state env st \<Longrightarrow> wf_state env (push_pull_sweep st)"
proof (rule wf_skeleton)
  fix x
  show "map_option skeleton (obs_at (nodes (push_pull_sweep st)) x) = map_option skeleton (obs_at (nodes st) x)"
  proof (cases "obs_at (nodes st) x")
    case None
    then have "\<not> valid_ptr st x" by (simp add: valid_ptr_def obs_at_None)
    then have "\<not> valid_ptr (push_pull_sweep st) x" by (simp add: push_pull_sweep_valid)
    then have "obs_at (nodes (push_pull_sweep st)) x = None"
      by (simp add: valid_ptr_def obs_at_None)
    then show ?thesis using None by simp
  next
    case (Some a)
    then show ?thesis by (cases a) (simp add: push_pull_sweep_obs skeleton_def)
  qed
qed (simp_all add: push_pull_sweep_def)

section \<open>Reachable states\<close>

text \<open>
  The states \<^verbatim>\<open>compute\<close> goes through, one rule for each thing it does to the state:
  building the roots; one round of \<^verbatim>\<open>refine\<close>, which \<^verbatim>\<open>compute\<close> starts on two roots with
  different \<open>root_tri_id\<close> and continues on pairs of a child and the other node; the
  overwriting of \<open>rad_gather\<close> at one node; a push--pull sweep; \<^verbatim>\<open>refine_link\<close> on a link
  of a node, and the \<^verbatim>\<open>erase\<close> of a link.  The rules ask less than the loops of the program
  guarantee (any pair of nodes under different roots, any link, in any order), so every
  state of a run is among these.
\<close>

inductive reachable :: "('tri, 'mesh) env \<Rightarrow> ('tri, 'mesh) state \<Rightarrow> bool" for env where
  reach_init: "reachable env (init_state env)"
| reach_refine:
    "reachable env st \<Longrightarrow> valid_ptr st p \<Longrightarrow> valid_ptr st q
     \<Longrightarrow> root_tri_id (info_of st p) \<noteq> root_tri_id (info_of st q)
     \<Longrightarrow> reachable env (fst (refine_step env p q st))"
| reach_gather: "reachable env st \<Longrightarrow> reachable env (gather_node st p)"
| reach_push_pull: "reachable env st \<Longrightarrow> reachable env (push_pull_sweep st)"
| reach_refine_link:
    "reachable env st \<Longrightarrow> valid_ptr st p \<Longrightarrow> l \<in> set (gathering_from (info_of st p))
     \<Longrightarrow> reachable env (snd (refine_link env p l st))"
| reach_erase: "reachable env st \<Longrightarrow> reachable env (erase_link p i st)"

lemma reachable_wf: "reachable env st \<Longrightarrow> wf_state env st"
proof (induction rule: reachable.induct)
  case reach_init
  show ?case by (rule wf_init)
next
  case (reach_refine st p q)
  then show ?case by (simp add: wf_refine_step)
next
  case (reach_gather st p)
  then show ?case by (simp add: wf_gather_node)
next
  case (reach_push_pull st)
  then show ?case by (simp add: wf_push_pull_sweep)
next
  case (reach_refine_link st p l)
  obtain pn where pn: "node_at (nodes st) p = Some pn"
    using reach_refine_link(2) by (auto simp: valid_ptr_def)
  then have "l \<in> set (gathering_from (info pn))"
    using reach_refine_link(3) by (simp add: info_of_valid)
  then show ?case using reach_refine_link(4) pn by (simp add: wf_refine_link)
next
  case (reach_erase st p i)
  then show ?case by (simp add: wf_erase_link)
qed

lemma wf_node:
  "wf_state env st \<Longrightarrow> node_at (nodes st) x = Some n \<Longrightarrow> node_ok env st x (info n) (length (children n))"
  by (simp add: wf_state_def obs_at_valid)

lemma info_at_node: "info_at F x = Some i \<Longrightarrow> \<exists>n. node_at F x = Some n \<and> info n = i"
  by (auto simp: info_at_def)

text \<open>
  C6.  In a reachable state, the two ends of every link are nodes under different roots:
  the shooter is a node of the hierarchy and its \<open>root_tri_id\<close> differs from the
  gatherer's.
\<close>

theorem links_cross_roots:
  assumes "reachable env st" and "info_at (nodes st) x = Some i" and "l \<in> set (gathering_from i)"
  shows "\<exists>j. info_at (nodes st) (link_q l) = Some j \<and> root_tri_id i \<noteq> root_tri_id j"
proof -
  note w = reachable_wf[OF assms(1)]
  obtain n where n: "node_at (nodes st) x = Some n" "info n = i"
    using info_at_node[OF assms(2)] by blast
  from wf_node[OF w n(1)] have ok: "root_tri_id i = hd x"
      "valid_ptr st (link_q l)" "hd (link_q l) \<noteq> hd x"
    using assms(3) n(2) by (auto simp: node_ok_def)
  then obtain m where m: "node_at (nodes st) (link_q l) = Some m" by (auto simp: valid_ptr_def)
  from wf_node[OF w m] have "root_tri_id (info m) = hd (link_q l)" by (simp add: node_ok_def)
  then show ?thesis using ok m by (simp add: info_at_def)
qed

text \<open>
  C7.  In a reachable state, for a scene whose triangles have non-negative areas
  (\<^verbatim>\<open>Triangle::area\<close> is not among the sources): every node is a leaf, or passed the area
  guard of \<^verbatim>\<open>subdivide\<close> (a quarter of its area is not below \<open>A_eps\<close>) and so has an area
  of \<open>A_eps\<close> at least.
\<close>

theorem internal_area_floor:
  assumes "areas_nonneg env" and "reachable env st" and "node_at (nodes st) x = Some n"
  shows "is_leaf n \<or> (A_eps env \<le> area (info n) / 4 \<and> A_eps env \<le> area (info n))"
proof (cases "is_leaf n")
  case False
  from wf_node[OF reachable_wf[OF assms(2)] assms(3)] False assms(1)
  have "A_eps env \<le> area (info n) / 4" "0 \<le> area (info n)"
    by (auto simp: node_ok_def is_leaf_children)
  then show ?thesis by (cases "0 \<le> A_eps env") auto
qed simp

text \<open>
  C10.  In a reachable state no two nodes have the same \<open>tri_id\<close>; the node at \<open>[r]\<close>, a
  root, has \<open>tri_id = root_tri_id = r\<close> below the number of root triangles, and every other
  node has a \<open>tri_id\<close> from that number on, with \<open>tri_id\<close> minus that number an index into
  \<^verbatim>\<open>subdivided_tris_\<close>: both reads of \<^verbatim>\<open>get_triangle\<close> are in bounds.  A \<^verbatim>\<open>subdivide\<close> that
  creates children gives them the four values from \<^verbatim>\<open>next_triangle_id()\<close> on, and
  \<^verbatim>\<open>subdivided_tris_\<close> grows by four.
\<close>

theorem tri_ids_unique_in_bounds:
  assumes "reachable env st"
  shows "(\<forall>x y i j. info_at (nodes st) x = Some i \<and> info_at (nodes st) y = Some j
            \<and> tri_id i = tri_id j \<longrightarrow> x = y)
    \<and> (\<forall>x i. info_at (nodes st) x = Some i \<longrightarrow>
          (if is_root env i
           then x = [tri_id i] \<and> root_tri_id i = tri_id i \<and> root_tri_id i < length (tree_triangles env)
           else length x \<noteq> 1 \<and> tri_id i - length (tree_triangles env) < length (subdivided_tris st)))
    \<and> (\<forall>p pn. node_at (nodes st) p = Some pn \<and> is_leaf pn \<and> \<not> area (info pn) / 4 < A_eps env \<longrightarrow>
          (\<exists>cs. node_at (nodes (snd (subdivide env p st))) p = Some (Quadnode (info pn) cs)
             \<and> map (\<lambda>c. tri_id (info c)) cs = map (\<lambda>k. next_triangle_id env st + k) [0..<4])
          \<and> length (subdivided_tris (snd (subdivide env p st))) = length (subdivided_tris st) + 4)"
proof (intro conjI allI impI)
  note w = reachable_wf[OF assms]
  fix x y i j
  assume a: "info_at (nodes st) x = Some i \<and> info_at (nodes st) y = Some j \<and> tri_id i = tri_id j"
  then obtain n m where "node_at (nodes st) x = Some n" "info n = i"
      "node_at (nodes st) y = Some m" "info m = j"
    using info_at_node by blast
  then have "obs_at (nodes st) x = Some (i, length (children n))"
      "obs_at (nodes st) y = Some (j, length (children m))"
    by (simp_all add: obs_at_valid)
  then show "x = y" using w a unfolding wf_state_def by blast
next
  note w = reachable_wf[OF assms]
  fix x i assume "info_at (nodes st) x = Some i"
  then obtain n where n: "node_at (nodes st) x = Some n" "info n = i"
    using info_at_node by blast
  note ok = wf_node[OF w n(1), unfolded n(2)]
  obtain r t where x: "x = r # t" using n(1) by (cases x) auto
  have r: "r < length (tree_triangles env)"
    using node_at_Cons_valid[of "nodes st" r t] n(1) x w by (simp add: wf_state_def)
  show "if is_root env i
           then x = [tri_id i] \<and> root_tri_id i = tri_id i \<and> root_tri_id i < length (tree_triangles env)
           else length x \<noteq> 1 \<and> tri_id i - length (tree_triangles env) < length (subdivided_tris st)"
  proof (cases "length x = 1")
    case True
    then have "t = []" using x by simp
    then show ?thesis using ok x r by (simp add: node_ok_def is_root_def)
  next
    case False
    then show ?thesis using ok by (auto simp: node_ok_def is_root_def next_triangle_id_def)
  qed
next
  fix p pn
  assume a: "node_at (nodes st) p = Some pn \<and> is_leaf pn \<and> \<not> area (info pn) / 4 < A_eps env"
  then have v: "node_at (nodes st) p = Some pn" and l: "is_leaf pn"
    and ar: "\<not> area (info pn) / 4 < A_eps env" by simp_all
  have "map (\<lambda>c. tri_id (info c)) (new_children env st p) = map (\<lambda>k. next_triangle_id env st + k) [0..<4]"
    by (simp add: new_children_def child_info_def del: upt_Suc)
  then show "\<exists>cs. node_at (nodes (snd (subdivide env p st))) p = Some (Quadnode (info pn) cs)
             \<and> map (\<lambda>c. tri_id (info c)) cs = map (\<lambda>k. next_triangle_id env st + k) [0..<4]"
    using node_at_subdivide_same[OF v l ar] by blast
  show "length (subdivided_tris (snd (subdivide env p st))) = length (subdivided_tris st) + 4"
    using subdivide_lengths(2)[OF v l ar] by (simp add: next_triangle_id_def)
qed

text \<open>Two reachable states of the small scene.\<close>

lemma ex_estimate:
  assumes "tree_triangles env = [0, 1]" "cos_theta env = (\<lambda>p q. 1)"
    "solid_angle env = (\<lambda>p q. if p < 100 \<and> q < 100 then 1 else 1/100)" "m_pi env = 3"
    and "i < 2" "j < 2"
  shows "estimate_form_factor env (init_state ex_env) (info (ex_root i)) (info (ex_root j)) = 1/3"
  using assms by (auto simp: estimate_form_factor_def get_triangle_def is_root_def ex_root_def
      nth_Cons split: nat.splits)

lemma ex_init_info:
  "info_of (init_state ex_env) [0] = info (ex_root 0)"
  "info_of (init_state ex_env) [Suc 0] = info (ex_root 1)"
  "valid_ptr (init_state ex_env) [0]" "valid_ptr (init_state ex_env) [Suc 0]"
  by (simp_all add: info_of_def node_of_def ex_init_nodes valid_ptr_def)

lemma ex_refine_step_subdivides:
  "fst (refine_step ex_env [0] [1] (init_state ex_env)) = ex_subdivided"
proof -
  have f: "tree_triangles ex_env = [0, 1]" "cos_theta ex_env = (\<lambda>p q. 1)"
      "solid_angle ex_env = (\<lambda>p q. if p < 100 \<and> q < 100 then 1 else 1/100)" "m_pi ex_env = 3"
      "F_eps ex_env = 1/10"
    by (simp_all add: ex_env_def)
  have v: "node_at (nodes (init_state ex_env)) [0] = Some (ex_root 0)"
    by (simp add: ex_init_nodes)
  have "fst (subdivide ex_env [0] (init_state ex_env))"
    using subdivide_fst[OF v, of ex_env] by (simp add: ex_root_def ex_env_def)
  then show ?thesis
    by (cases "subdivide ex_env [0] (init_state ex_env)")
      (simp add: refine_step_def ex_init_info ex_estimate[OF f(1-4)] f(5) ex_subdivided_def)
qed

lemma ex_subdivided_reachable: "reachable ex_env ex_subdivided"
proof -
  have "root_tri_id (info_of (init_state ex_env) [0]) \<noteq> root_tri_id (info_of (init_state ex_env) [1])"
    by (simp add: ex_init_info ex_root_def)
  from reach_refine[OF reach_init _ _ this] show ?thesis
    by (simp add: ex_init_info ex_refine_step_subdivides[simplified])
qed

definition ex_env_link :: "(nat, unit) env" where
  "ex_env_link = ex_env\<lparr>F_eps := 1\<rparr>"

definition ex_one_link :: "(nat, unit) state" where
  "ex_one_link = link ex_env_link [0] [1] (init_state ex_env)"

lemma ex_one_link_reachable: "reachable ex_env_link ex_one_link"
proof -
  have i: "init_state ex_env_link = init_state ex_env"
    by (simp add: init_state_def build_nodes_def ex_env_link_def)
  have f: "tree_triangles ex_env_link = [0, 1]" "cos_theta ex_env_link = (\<lambda>p q. 1)"
      "solid_angle ex_env_link = (\<lambda>p q. if p < 100 \<and> q < 100 then 1 else 1/100)"
      "m_pi ex_env_link = 3" "F_eps ex_env_link = 1"
    by (simp_all add: ex_env_def ex_env_link_def)
  have s: "fst (refine_step ex_env_link [0] [1] (init_state ex_env)) = ex_one_link"
    by (simp add: refine_step_def ex_init_info ex_estimate[OF f(1-4)] f(5) ex_one_link_def)
  have "root_tri_id (info_of (init_state ex_env) [0]) \<noteq> root_tri_id (info_of (init_state ex_env) [1])"
    by (simp add: ex_init_info ex_root_def)
  from reach_refine[OF reach_init[of ex_env_link, unfolded i] _ _ this] show ?thesis
    by (simp add: ex_init_info s[simplified])
qed

lemma ex_one_link_info:
  "info_at (nodes ex_one_link) [0] =
     Some ((info (ex_root 0))\<lparr>gathering_from := [\<lparr>link_q = [1], form_factor = 1/4\<rparr>]\<rparr>)"
proof -
  have o: "ff_oracle ex_env_link = (\<lambda>p q r. 1/4)"
    by (simp add: ex_env_link_def ex_env_def)
  have i: "info_at (nodes (init_state ex_env)) [0] = Some (info (ex_root 0))"
    by (simp add: info_at_def ex_init_nodes)
  have "info_at (update_at (map_info g) [0] (nodes (init_state ex_env))) [0]
          = Some (g (info (ex_root 0)))" for g
    by (simp only: info_at_update_map_info i refl if_True option.map)
  then show ?thesis
    by (simp add: ex_one_link_def link_eq oracle_link_def o ex_init_info ex_root_def
        del: update_at.simps)
qed

theorem links_cross_roots_witness:
  "reachable ex_env_link ex_one_link
   \<and> info_at (nodes ex_one_link) [0] =
       Some ((info (ex_root 0))\<lparr>gathering_from := [\<lparr>link_q = [1], form_factor = 1/4\<rparr>]\<rparr>)
   \<and> (\<exists>j. info_at (nodes ex_one_link) [1] = Some j \<and> root_tri_id (info (ex_root 0)) \<noteq> root_tri_id j)"
  using links_cross_roots[OF ex_one_link_reachable ex_one_link_info,
      of "\<lparr>link_q = [1], form_factor = 1/4\<rparr>"]
    ex_one_link_reachable ex_one_link_info
  by simp

theorem internal_area_floor_witness:
  "areas_nonneg ex_env \<and> reachable ex_env ex_subdivided
   \<and> node_at (nodes ex_subdivided) [0]
        = Some (Quadnode (info (ex_root 0)) (new_children ex_env (init_state ex_env) [0]))
   \<and> \<not> is_leaf (Quadnode (info (ex_root 0)) (new_children ex_env (init_state ex_env) [0]))
   \<and> A_eps ex_env \<le> area (info (ex_root 0)) / 4 \<and> A_eps ex_env \<le> area (info (ex_root 0))"
proof -
  have a: "areas_nonneg ex_env" by (simp add: areas_nonneg_def ex_env_def)
  have n: "node_at (nodes ex_subdivided) [0]
        = Some (Quadnode (info (ex_root 0)) (new_children ex_env (init_state ex_env) [0]))"
    by (simp add: ex_subdivided_nodes)
  have l: "\<not> is_leaf (Quadnode (info (ex_root 0)) (new_children ex_env (init_state ex_env) [0]))"
    by (simp add: is_leaf_children new_children_def upt_4)
  from internal_area_floor[OF a ex_subdivided_reachable n] l
  show ?thesis using a ex_subdivided_reachable n by simp
qed

theorem tri_ids_unique_in_bounds_witness:
  "reachable ex_env ex_subdivided
   \<and> info_at (nodes ex_subdivided) [0] = Some (info (ex_root 0))
   \<and> is_root ex_env (info (ex_root 0))
   \<and> root_tri_id (info (ex_root 0)) < length (tree_triangles ex_env)
   \<and> info_at (nodes ex_subdivided) [0, 3] = Some (info (new_children ex_env (init_state ex_env) [0] ! 3))
   \<and> \<not> is_root ex_env (info (new_children ex_env (init_state ex_env) [0] ! 3))
   \<and> tri_id (info (new_children ex_env (init_state ex_env) [0] ! 3)) - length (tree_triangles ex_env)
        < length (subdivided_tris ex_subdivided)
   \<and> tri_id (info (ex_root 0)) \<noteq> tri_id (info (new_children ex_env (init_state ex_env) [0] ! 3))
   \<and> length (subdivided_tris (snd (subdivide ex_env [1] ex_subdivided))) = length (subdivided_tris ex_subdivided) + 4"
proof -
  let ?c = "new_children ex_env (init_state ex_env) [0] ! 3"
  note t = tri_ids_unique_in_bounds[OF ex_subdivided_reachable]
  have i0: "info_at (nodes ex_subdivided) [0] = Some (info (ex_root 0))"
    by (simp add: info_at_def ex_subdivided_nodes)
  have i3: "info_at (nodes ex_subdivided) [0, 3] = Some (info ?c)"
    by (simp add: info_at_def ex_subdivided_nodes)
  have r0: "is_root ex_env (info (ex_root 0))" by (simp add: is_root_def ex_root_def ex_env_def)
  have r3: "\<not> is_root ex_env (info ?c)"
    by (simp add: is_root_def new_children_nth child_info_def next_triangle_id_def)
  have 1: "root_tri_id (info (ex_root 0)) < length (tree_triangles ex_env)"
    by (rule t[THEN conjunct2, THEN conjunct1, rule_format, OF i0, unfolded if_P[OF r0],
          THEN conjunct2, THEN conjunct2])
  have 2: "tri_id (info ?c) - length (tree_triangles ex_env) < length (subdivided_tris ex_subdivided)"
    by (rule t[THEN conjunct2, THEN conjunct1, rule_format, OF i3, unfolded if_not_P[OF r3],
          THEN conjunct2])
  from t[THEN conjunct1, rule_format, of "[0]" "info (ex_root 0)" "[0, 3]" "info ?c"] i0 i3
  have 3: "tri_id (info (ex_root 0)) \<noteq> tri_id (info ?c)" by auto
  have v: "node_at (nodes ex_subdivided) [1] = Some (ex_root 1)
      \<and> is_leaf (ex_root 1) \<and> \<not> area (info (ex_root 1)) / 4 < A_eps ex_env"
    by (simp add: ex_subdivided_nodes ex_root_def is_leaf_def ex_env_def)
  from t[THEN conjunct2, THEN conjunct2, rule_format, OF v]
  have 4: "length (subdivided_tris (snd (subdivide ex_env [1] ex_subdivided))) = length (subdivided_tris ex_subdivided) + 4"
    by simp
  show ?thesis using ex_subdivided_reachable i0 i3 r0 r3 1 2 3 4 by blast
qed

section \<open>The seeding of the link graph\<close>

lemma valid_ptr_root: "valid_ptr st [i] \<longleftrightarrow> i < length (nodes st)"
  by (simp add: valid_ptr_def)

lemma valid_child_ptrs:
  assumes "valid_ptr st p" and "c \<in> set (child_ptrs st p)"
  shows "valid_ptr st c" and "hd c = hd p"
proof -
  obtain n where n: "node_at (nodes st) p = Some n"
    using assms(1) by (auto simp: valid_ptr_def)
  then have ne: "p \<noteq> []" by (rule node_at_valid_nonempty)
  obtain i where i: "i < length (children n)" "c = p @ [i]"
    using assms(2) by (auto simp: child_ptrs_eq[OF n])
  show "valid_ptr st c" using n ne i by (simp add: valid_ptr_def node_at_append)
  show "hd c = hd p" using ne i by simp
qed

lemma length_nodes_subdivide:
  assumes v: "node_at (nodes st) p = Some pn"
  shows "length (nodes (snd (subdivide env p st))) = length (nodes st)"
proof (cases "is_leaf pn")
  case True
  then show ?thesis
    using subdivide_lengths(1)[OF v True, of env] subdivide_refused[OF v True, of env]
    by (cases "area (info pn) / 4 < A_eps env") auto
next
  case False
  then show ?thesis using v by (simp add: subdivide_internal)
qed

lemma refine_step_pushed:
  assumes vp: "valid_ptr st p" and vq: "valid_ptr st q"
    and r: "refine_step env p q st = (st', pushed)"
  shows "valid_ptr st x \<Longrightarrow> valid_ptr st' x"
    and "length (nodes st') = length (nodes st)"
    and "(a, b) \<in> set pushed \<Longrightarrow> valid_ptr st' a \<and> valid_ptr st' b \<and> hd a = hd p \<and> hd b = hd q"
proof -
  obtain pn qn where pn: "node_at (nodes st) p = Some pn" and qn: "node_at (nodes st) q = Some qn"
    using vp vq by (auto simp: valid_ptr_def)
  let ?sp = "snd (subdivide env p st)" and ?sq = "snd (subdivide env q st)"
  note mp = valid_ptr_subdivide[OF pn, of _ env] and mq = valid_ptr_subdivide[OF qn, of _ env]
  note lp = length_nodes_subdivide[OF pn, of env] and lq = length_nodes_subdivide[OF qn, of env]
  consider (link) "st' = link env p q st" "pushed = []"
    | (linkp) "st' = link env p q ?sp" "pushed = []"
    | (linkq) "st' = link env p q ?sq" "pushed = []"
    | (subq) "st' = ?sq" "pushed = map (\<lambda>c. (p, c)) (child_ptrs ?sq q)"
    | (subp) "st' = ?sp" "pushed = map (\<lambda>c. (c, q)) (child_ptrs ?sp p)"
    using r by (auto simp: refine_step_def Let_def split: if_splits prod.splits bool.splits)
  then have "(valid_ptr st x \<longrightarrow> valid_ptr st' x) \<and> length (nodes st') = length (nodes st)
     \<and> ((a, b) \<in> set pushed \<longrightarrow> valid_ptr st' a \<and> valid_ptr st' b \<and> hd a = hd p \<and> hd b = hd q)"
  proof cases
    case link then show ?thesis by simp
  next
    case linkp then show ?thesis using mp lp by simp
  next
    case linkq then show ?thesis using mq lq by simp
  next
    case subq
    then show ?thesis using mq lq valid_child_ptrs[of ?sq q] vp vq by auto
  next
    case subp
    then show ?thesis using mp lp valid_child_ptrs[of ?sp p] vp vq by auto
  qed
  then show "valid_ptr st x \<Longrightarrow> valid_ptr st' x"
    and "length (nodes st') = length (nodes st)"
    and "(a, b) \<in> set pushed \<Longrightarrow> valid_ptr st' a \<and> valid_ptr st' b \<and> hd a = hd p \<and> hd b = hd q"
    by blast+
qed

text \<open>The pairs on the work stack of \<^verbatim>\<open>refine\<close>: existing patches of different roots.\<close>

definition cross_pairs :: "('tri, 'mesh) state \<Rightarrow> (ptr \<times> ptr) list \<Rightarrow> bool" where
  "cross_pairs st stack \<longleftrightarrow>
     (\<forall>ab \<in> set stack. valid_ptr st (fst ab) \<and> valid_ptr st (snd ab) \<and> hd (fst ab) \<noteq> hd (snd ab))"

lemma refine_loop_reachable:
  "refine_loop n env stack st = Some st' \<Longrightarrow> reachable env st \<Longrightarrow> cross_pairs st stack
   \<Longrightarrow> reachable env st' \<and> length (nodes st') = length (nodes st)
       \<and> (\<forall>x. valid_ptr st x \<longrightarrow> valid_ptr st' x)"
proof (induction n env stack st rule: refine_loop.induct)
  case (1 n env st)
  then show ?case by simp
next
  case (2 env pq stack st)
  then show ?case by simp
next
  case (3 n env p q stack st)
  obtain s1 pushed where s: "refine_step env p q st = (s1, pushed)"
    by (cases "refine_step env p q st")
  have v: "valid_ptr st p" "valid_ptr st q" and h: "hd p \<noteq> hd q"
    using "3.prems"(3) by (auto simp: cross_pairs_def)
  note ps = refine_step_pushed[OF v s]
  have "root_tri_id (info_of st p) \<noteq> root_tri_id (info_of st q)"
    using wf_root_tri_id[OF reachable_wf[OF "3.prems"(2)]] v h by simp
  from reach_refine[OF "3.prems"(2) v this] have r1: "reachable env s1" by (simp add: s)
  have c1: "cross_pairs s1 (rev pushed @ stack)"
    using "3.prems"(3) ps(1) ps(3) h by (fastforce simp: cross_pairs_def)
  have "refine_loop n env (rev pushed @ stack) s1 = Some st'"
    using "3.prems"(1) by (simp add: s)
  from "3.IH"[OF s[symmetric] this r1 c1] show ?case using ps(1,2) by auto
qed

text \<open>The calls of \<^verbatim>\<open>refine\<close> for \<open>N\<close> roots: every ordered pair of two roots, row by row.\<close>

definition root_pairs :: "nat \<Rightarrow> (ptr \<times> ptr) list" where
  "root_pairs N =
     concat (map (\<lambda>n. map (\<lambda>m. ([n], [m])) (filter (\<lambda>m. m \<noteq> n) [0..<N])) [0..<N])"

lemma refine_nodes_inner_None: "fold (refine_nodes_inner k env n) ms None = None"
  by (induction ms) (simp_all add: refine_nodes_inner_def)

lemma refine_nodes_inner_step:
  assumes r: "reachable env st" and n: "n < length (nodes st)" and m: "m < length (nodes st)"
  shows "refine_nodes_inner k env n m (Some (st, calls)) =
           (if n = m then Some (st, calls)
            else case refine_loop k env [([n], [m])] st of None \<Rightarrow> None
                 | Some st' \<Rightarrow> Some (st', calls @ [([n], [m])]))"
  using wf_root_tri_id[OF reachable_wf[OF r], of "[n]"] wf_root_tri_id[OF reachable_wf[OF r], of "[m]"]
    n m
  by (simp add: refine_nodes_inner_def refine_def valid_ptr_root)

lemma refine_nodes_inner_fold:
  "fold (refine_nodes_inner k env n) ms (Some (st, calls)) = Some (st', calls')
   \<Longrightarrow> reachable env st \<Longrightarrow> n < length (nodes st) \<Longrightarrow> \<forall>m \<in> set ms. m < length (nodes st)
   \<Longrightarrow> reachable env st' \<and> length (nodes st') = length (nodes st)
       \<and> calls' = calls @ map (\<lambda>m. ([n], [m])) (filter (\<lambda>m. m \<noteq> n) ms)"
proof (induction ms arbitrary: st calls)
  case Nil
  then show ?case by simp
next
  case (Cons m ms)
  note st = refine_nodes_inner_step[OF Cons.prems(2,3), of m k calls]
  show ?case
  proof (cases "n = m")
    case True
    then show ?thesis using Cons.IH[of st calls] Cons.prems st by simp
  next
    case False
    show ?thesis
    proof (cases "refine_loop k env [([n], [m])] st")
      case None
      then show ?thesis using Cons.prems st False by (simp add: refine_nodes_inner_None)
    next
      case (Some s1)
      have "cross_pairs st [([n], [m])]"
        using Cons.prems(3,4) False by (simp add: cross_pairs_def valid_ptr_root)
      from refine_loop_reachable[OF Some Cons.prems(2) this]
      have r1: "reachable env s1" and l1: "length (nodes s1) = length (nodes st)" by auto
      have "fold (refine_nodes_inner k env n) ms (Some (s1, calls @ [([n], [m])])) = Some (st', calls')"
        using Cons.prems(1,4) st False Some by simp
      from Cons.IH[OF this r1] Cons.prems(3,4) l1 False show ?thesis by simp
    qed
  qed
qed

lemma refine_nodes_outer_None:
  "fold (\<lambda>n. fold (refine_nodes_inner k env n) ms) ns None = None"
  by (induction ns) (simp_all add: refine_nodes_inner_None)

lemma refine_nodes_outer_fold:
  "fold (\<lambda>n. fold (refine_nodes_inner k env n) [0..<N]) ns (Some (st, calls)) = Some (st', calls')
   \<Longrightarrow> reachable env st \<Longrightarrow> length (nodes st) = N \<Longrightarrow> \<forall>n \<in> set ns. n < N
   \<Longrightarrow> reachable env st' \<and> length (nodes st') = N
       \<and> calls' = calls
           @ concat (map (\<lambda>n. map (\<lambda>m. ([n], [m])) (filter (\<lambda>m. m \<noteq> n) [0..<N])) ns)"
proof (induction ns arbitrary: st calls)
  case Nil
  then show ?case by simp
next
  case (Cons n ns)
  show ?case
  proof (cases "fold (refine_nodes_inner k env n) [0..<N] (Some (st, calls))")
    case None
    then show ?thesis using Cons.prems(1) by (simp add: refine_nodes_outer_None)
  next
    case (Some r)
    obtain s1 c1 where r: "r = (s1, c1)" by (cases r)
    have "reachable env s1 \<and> length (nodes s1) = length (nodes st)
       \<and> c1 = calls @ map (\<lambda>m. ([n], [m])) (filter (\<lambda>m. m \<noteq> n) [0..<N])"
      using refine_nodes_inner_fold[OF Some[unfolded r] Cons.prems(2)] Cons.prems(3,4) by simp
    moreover have "fold (\<lambda>n. fold (refine_nodes_inner k env n) [0..<N]) ns (Some (s1, c1))
        = Some (st', calls')"
      using Cons.prems(1) Some r by simp
    ultimately show ?thesis using Cons.IH[of s1 c1] Cons.prems(3,4) by simp
  qed
qed

lemma length_nodes_init: "length (nodes (init_state env)) = length (tree_triangles env)"
  by (simp add: init_state_def build_nodes_def)

lemma refine_nodes_traced_calls:
  assumes "refine_nodes_traced k env (init_state env) = Some (st, calls)"
  shows "reachable env st" and "length (nodes st) = length (tree_triangles env)"
    and "calls = root_pairs (length (tree_triangles env))"
  using refine_nodes_outer_fold[OF assms[unfolded refine_nodes_traced_def length_nodes_init]
      reach_init length_nodes_init]
  by (simp_all add: root_pairs_def)

lemma distinct_root_pairs: "distinct (root_pairs N)"
  unfolding root_pairs_def
  by (rule distinct_concat_map) (auto simp: distinct_map inj_on_def)

lemma set_root_pairs: "set (root_pairs N) = {([n], [m]) | n m. n < N \<and> m < N \<and> n \<noteq> m}"
  by (auto simp: root_pairs_def)

lemma count_list_distinct: "distinct xs \<Longrightarrow> count_list xs x = (if x \<in> set xs then 1 else 0)"
  by (induction xs) auto

lemma count_root_pairs:
  "count_list (root_pairs N) ([n], [m]) = (if n < N \<and> m < N \<and> n \<noteq> m then 1 else 0)"
  by (simp add: count_list_distinct[OF distinct_root_pairs] set_root_pairs)

subsection \<open>The seeding returns when \<open>A_eps\<close> is positive\<close>

text \<open>
  The area of a patch is fixed by its place in the hierarchy: the area of the root
  triangle above it, quartered once for every level below the root.
\<close>

definition patch_area :: "('tri, 'mesh) env \<Rightarrow> ptr \<Rightarrow> real" where
  "patch_area env x = tri_area env (tree_triangles env ! hd x) / 4 ^ (length x - 1)"

definition area_ok :: "('tri, 'mesh) env \<Rightarrow> ('tri, 'mesh) state \<Rightarrow> bool" where
  "area_ok env st \<longleftrightarrow>
     (\<forall>x i k. obs_at (nodes st) x = Some (i, k) \<longrightarrow> area i = patch_area env x)"

lemma patch_area_child: "p \<noteq> [] \<Longrightarrow> patch_area env (p @ [i]) = patch_area env p / 4"
  by (cases p) (simp_all add: patch_area_def)

lemma area_ok_init: "area_ok env (init_state env)"
  unfolding area_ok_def
proof (intro allI impI)
  fix x i k assume "obs_at (nodes (init_state env)) x = Some (i, k)"
  from obs_at_init[OF this] show "area i = patch_area env x"
    by (auto simp: patch_area_def)
qed

lemma area_ok_link: "area_ok env st \<Longrightarrow> area_ok env (link env' c d st)"
  unfolding area_ok_def obs_at_link relinked_def
  by (auto split: option.splits)

lemma area_ok_subdivide:
  assumes a: "area_ok env st" and v: "node_at (nodes st) p = Some pn"
  shows "area_ok env (snd (subdivide env p st))"
proof (cases "is_leaf pn \<and> \<not> area (info pn) / 4 < A_eps env")
  case False
  then have "snd (subdivide env p st) = st"
    using v by (cases "is_leaf pn") (auto simp: subdivide_internal subdivide_refused)
  then show ?thesis using a by simp
next
  case True
  then have l: "is_leaf pn" and g: "\<not> area (info pn) / 4 < A_eps env" by simp_all
  have pne: "p \<noteq> []" using v by (rule node_at_valid_nonempty)
  have ap: "area (info pn) = patch_area env p"
    using a obs_at_valid[OF v] by (simp add: area_ok_def)
  show ?thesis
    unfolding area_ok_def
  proof (intro allI impI)
    fix x i k
    assume o: "obs_at (nodes (snd (subdivide env p st))) x = Some (i, k)"
    show "area i = patch_area env x"
    proof (cases "x = p")
      case True
      then show ?thesis using o ap by (simp add: obs_at_subdivide[OF v l g])
    next
      case False
      show ?thesis
      proof (cases "\<exists>j<4. x = p @ [j]")
        case True
        then obtain j where j: "j < 4" "x = p @ [j]" by blast
        have "i = info (new_children env st p ! j)"
          using o j False by (auto simp: obs_at_subdivide[OF v l g])
        then have "area i = area (info pn) / 4"
          using j(1) by (simp add: new_children_nth child_info_def info_of_valid[OF v])
        then show ?thesis using ap j(2) pne by (simp add: patch_area_child)
      next
        case F2: False
        then have "obs_at (nodes st) x = Some (i, k)"
          using o False by (auto simp: obs_at_subdivide[OF v l g] split: if_splits)
        then show ?thesis using a by (simp add: area_ok_def)
      qed
    qed
  qed
qed

lemma area_ok_refine_step:
  assumes "area_ok env st" and "valid_ptr st p" and "valid_ptr st q"
  shows "area_ok env (fst (refine_step env p q st))"
proof -
  obtain pn qn where "node_at (nodes st) p = Some pn" "node_at (nodes st) q = Some qn"
    using assms(2,3) by (auto simp: valid_ptr_def)
  then show ?thesis
    using refine_step_state[OF assms(2,3), of env] area_ok_link[OF assms(1)]
      area_ok_subdivide[OF assms(1)]
    by metis
qed

text \<open>
  How often the area of a patch holds \<open>A_eps\<close>.  A patch that has children passed the
  guard of \<^verbatim>\<open>subdivide\<close>, so with \<open>0 < A_eps\<close> its children are of lower rank.
\<close>

definition patch_rank :: "('tri, 'mesh) env \<Rightarrow> ptr \<Rightarrow> nat" where
  "patch_rank env x = nat \<lfloor>patch_area env x / A_eps env\<rfloor>"

lemma floor_quarter_less:
  fixes x :: real
  assumes "4 \<le> x"
  shows "nat \<lfloor>x / 4\<rfloor> < nat \<lfloor>x\<rfloor>"
proof -
  have "of_int \<lfloor>x / 4\<rfloor> \<le> x / 4" by (rule of_int_floor_le)
  then have "of_int (\<lfloor>x / 4\<rfloor> + 1) \<le> x" using assms by linarith
  then have "\<lfloor>x / 4\<rfloor> + 1 \<le> \<lfloor>x\<rfloor>" by (simp only: le_floor_iff)
  moreover have "0 < \<lfloor>x\<rfloor>" using assms by simp
  ultimately show ?thesis by simp
qed

lemma patch_rank_child:
  assumes e: "0 < A_eps env" and p: "p \<noteq> []" and g: "A_eps env \<le> patch_area env p / 4"
  shows "patch_rank env (p @ [i]) < patch_rank env p"
proof -
  have "4 \<le> patch_area env p / A_eps env" using e g by (simp add: le_divide_eq)
  from floor_quarter_less[OF this]
  have "nat \<lfloor>patch_area env p / A_eps env / 4\<rfloor> < nat \<lfloor>patch_area env p / A_eps env\<rfloor>" .
  moreover have "patch_area env (p @ [i]) / A_eps env = patch_area env p / A_eps env / 4"
    using p by (simp add: patch_area_child)
  ultimately show ?thesis by (simp only: patch_rank_def)
qed

text \<open>The weight of the work stack of \<^verbatim>\<open>refine\<close>; every round of the loop lowers it.\<close>

definition stack_weight :: "('tri, 'mesh) env \<Rightarrow> (ptr \<times> ptr) list \<Rightarrow> nat" where
  "stack_weight env stack =
     sum_list (map (\<lambda>pq. 5 ^ (patch_rank env (fst pq) + patch_rank env (snd pq))) stack)"

lemma stack_weight_simps [simp]:
  "stack_weight env [] = 0"
  "stack_weight env (pq # stack) =
     5 ^ (patch_rank env (fst pq) + patch_rank env (snd pq)) + stack_weight env stack"
  "stack_weight env (xs @ ys) = stack_weight env xs + stack_weight env ys"
  "stack_weight env (rev xs) = stack_weight env xs"
  by (simp_all add: stack_weight_def rev_map[symmetric] sum_list_rev)

lemma stack_weight_bound:
  "\<forall>pq \<in> set pushed. patch_rank env (fst pq) + patch_rank env (snd pq) < R
   \<Longrightarrow> stack_weight env pushed \<le> length pushed * 5 ^ (R - 1)"
proof (induction pushed)
  case Nil
  then show ?case by simp
next
  case (Cons pq pushed)
  have "patch_rank env (fst pq) + patch_rank env (snd pq) \<le> R - 1" using Cons.prems by auto
  then have h: "(5::nat) ^ (patch_rank env (fst pq) + patch_rank env (snd pq)) \<le> 5 ^ (R - 1)"
    by (rule power_increasing) simp
  have ih: "stack_weight env pushed \<le> length pushed * 5 ^ (R - 1)"
    using Cons by simp
  have "length (pq # pushed) * 5 ^ (R - 1) = 5 ^ (R - 1) + length pushed * 5 ^ (R - 1)"
    by simp
  moreover have "stack_weight env (pq # pushed)
      = 5 ^ (patch_rank env (fst pq) + patch_rank env (snd pq)) + stack_weight env pushed"
    by simp
  ultimately show ?case using h ih by linarith
qed

lemma stack_weight_pushed:
  assumes "\<forall>pq \<in> set pushed. patch_rank env (fst pq) + patch_rank env (snd pq) < R"
    and "length pushed \<le> 4"
  shows "stack_weight env pushed < 5 ^ R"
proof (cases pushed)
  case Nil
  then show ?thesis by simp
next
  case (Cons pq t)
  then have "0 < R" using assms(1) by auto
  then have r: "(5::nat) ^ R = 5 * 5 ^ (R - 1)" by (cases R) simp_all
  have "stack_weight env pushed \<le> length pushed * 5 ^ (R - 1)"
    using assms(1) by (rule stack_weight_bound)
  also have "\<dots> \<le> 4 * 5 ^ (R - 1)" using assms(2) by simp
  also have "\<dots> < 5 ^ R" unfolding r by simp
  finally show ?thesis .
qed

lemma subdivide_pushes_lower:
  assumes r: "reachable env st" and a: "area_ok env st" and e: "0 < A_eps env"
    and v: "node_at (nodes st) p = Some pn" and s: "fst (subdivide env p st)"
  shows "child_ptrs (snd (subdivide env p st)) p = map (\<lambda>i. p @ [i]) [0..<4]"
    and "patch_rank env (p @ [i]) < patch_rank env p"
proof -
  note ok = wf_node[OF reachable_wf[OF r] v]
  have k: "length (children pn) \<in> {0, 4}" using ok by (auto simp: node_ok_def)
  have b: "\<not> (is_leaf pn \<and> area (info pn) / 4 < A_eps env)"
    using s subdivide_fst[OF v, of env] by simp
  show "child_ptrs (snd (subdivide env p st)) p = map (\<lambda>i. p @ [i]) [0..<4]"
    using v k b by (rule subdivide_children)
  have "A_eps env \<le> area (info pn) / 4"
    using b ok by (cases "is_leaf pn") (auto simp: node_ok_def is_leaf_children)
  moreover have "area (info pn) = patch_area env p"
    using a obs_at_valid[OF v] by (simp add: area_ok_def)
  ultimately show "patch_rank env (p @ [i]) < patch_rank env p"
    using patch_rank_child[OF e node_at_valid_nonempty[OF v]] by simp
qed

lemma refine_step_weight:
  assumes r: "reachable env st" and a: "area_ok env st" and e: "0 < A_eps env"
    and vp: "valid_ptr st p" and vq: "valid_ptr st q"
    and s: "refine_step env p q st = (st', pushed)"
  shows "stack_weight env pushed < 5 ^ (patch_rank env p + patch_rank env q)"
proof -
  obtain pn qn where pn: "node_at (nodes st) p = Some pn" and qn: "node_at (nodes st) q = Some qn"
    using vp vq by (auto simp: valid_ptr_def)
  let ?sp = "snd (subdivide env p st)" and ?sq = "snd (subdivide env q st)"
  consider (none) "pushed = []"
    | (subq) "fst (subdivide env q st)" "pushed = map (\<lambda>c. (p, c)) (child_ptrs ?sq q)"
    | (subp) "fst (subdivide env p st)" "pushed = map (\<lambda>c. (c, q)) (child_ptrs ?sp p)"
    using s by (auto simp: refine_step_def Let_def split: if_splits prod.splits bool.splits)
  then show ?thesis
  proof cases
    case none
    then show ?thesis by simp
  next
    case subq
    note l = subdivide_pushes_lower[OF r a e qn subq(1)]
    have "pushed = map (\<lambda>i. (p, q @ [i])) [0..<4]"
      unfolding subq(2) l(1) by (simp add: comp_def del: upt_Suc)
    then have "\<forall>pq \<in> set pushed. patch_rank env (fst pq) + patch_rank env (snd pq)
                 < patch_rank env p + patch_rank env q"
      and "length pushed \<le> 4"
      using l(2) by (auto simp del: upt_Suc)
    then show ?thesis by (rule stack_weight_pushed)
  next
    case subp
    note l = subdivide_pushes_lower[OF r a e pn subp(1)]
    have "pushed = map (\<lambda>i. (p @ [i], q)) [0..<4]"
      unfolding subp(2) l(1) by (simp add: comp_def del: upt_Suc)
    then have "\<forall>pq \<in> set pushed. patch_rank env (fst pq) + patch_rank env (snd pq)
                 < patch_rank env p + patch_rank env q"
      and "length pushed \<le> 4"
      using l(2) by (auto simp del: upt_Suc)
    then show ?thesis by (rule stack_weight_pushed)
  qed
qed

text \<open>With \<open>0 < A_eps\<close>, \<^verbatim>\<open>refine\<close> returns: fuel as large as the weight of the stack is enough.\<close>

lemma refine_loop_returns:
  "reachable env st \<Longrightarrow> area_ok env st \<Longrightarrow> cross_pairs st stack \<Longrightarrow> 0 < A_eps env
   \<Longrightarrow> stack_weight env stack \<le> n
   \<Longrightarrow> \<exists>st'. refine_loop n env stack st = Some st' \<and> area_ok env st'"
proof (induction n arbitrary: stack st)
  case 0
  then have "stack = []" by (cases stack) simp_all
  then show ?case using 0 by simp
next
  case (Suc n)
  show ?case
  proof (cases stack)
    case Nil
    then show ?thesis using Suc.prems by simp
  next
    case (Cons pq rest)
    obtain p q where pq: "pq = (p, q)" by (cases pq)
    obtain s1 pushed where s: "refine_step env p q st = (s1, pushed)"
      by (cases "refine_step env p q st")
    have v: "valid_ptr st p" "valid_ptr st q" and h: "hd p \<noteq> hd q"
      using Suc.prems(3) Cons pq by (auto simp: cross_pairs_def)
    note ps = refine_step_pushed[OF v s]
    have "root_tri_id (info_of st p) \<noteq> root_tri_id (info_of st q)"
      using wf_root_tri_id[OF reachable_wf[OF Suc.prems(1)]] v h by simp
    from reach_refine[OF Suc.prems(1) v this] have r1: "reachable env s1" by (simp add: s)
    have a1: "area_ok env s1" using area_ok_refine_step[OF Suc.prems(2) v] by (simp add: s)
    have c1: "cross_pairs s1 (rev pushed @ rest)"
      using Suc.prems(3) ps(1) ps(3) h Cons pq by (fastforce simp: cross_pairs_def)
    have "stack_weight env (rev pushed @ rest) \<le> n"
      using refine_step_weight[OF Suc.prems(1,2,4) v s] Suc.prems(5) Cons pq by simp
    from Suc.IH[OF r1 a1 c1 Suc.prems(4) this] show ?thesis
      using Cons pq s by simp
  qed
qed

text \<open>Fuel that is enough for every call of \<^verbatim>\<open>refine\<close> on two roots.\<close>

definition seed_fuel :: "('tri, 'mesh) env \<Rightarrow> nat" where
  "seed_fuel env =
     5 ^ (2 * sum_list (map (\<lambda>n. patch_rank env [n]) [0..<length (tree_triangles env)]))"

lemma root_weight:
  assumes "n < length (tree_triangles env)" and "m < length (tree_triangles env)"
  shows "stack_weight env [([n], [m])] \<le> seed_fuel env"
proof -
  let ?rs = "map (\<lambda>n. patch_rank env [n]) [0..<length (tree_triangles env)]"
  have "patch_rank env [n] \<in> set ?rs" "patch_rank env [m] \<in> set ?rs" using assms by auto
  then have "patch_rank env [n] \<le> sum_list ?rs" "patch_rank env [m] \<le> sum_list ?rs"
    by (auto intro: member_le_sum_list)
  then have "patch_rank env [n] + patch_rank env [m] \<le> 2 * sum_list ?rs" by simp
  then have "(5::nat) ^ (patch_rank env [n] + patch_rank env [m]) \<le> 5 ^ (2 * sum_list ?rs)"
    by (rule power_increasing) simp
  then show ?thesis by (simp add: seed_fuel_def)
qed

lemma refine_nodes_inner_fold_returns:
  "reachable env st \<Longrightarrow> area_ok env st \<Longrightarrow> 0 < A_eps env \<Longrightarrow> seed_fuel env \<le> k
   \<Longrightarrow> n < length (nodes st) \<Longrightarrow> \<forall>m \<in> set ms. m < length (nodes st)
   \<Longrightarrow> \<exists>st' calls'. fold (refine_nodes_inner k env n) ms (Some (st, calls)) = Some (st', calls')
         \<and> reachable env st' \<and> area_ok env st' \<and> length (nodes st') = length (nodes st)"
proof (induction ms arbitrary: st calls)
  case Nil
  then show ?case by simp
next
  case (Cons m ms)
  note st = refine_nodes_inner_step[OF Cons.prems(1,5), of m k calls]
  have N: "length (nodes st) = length (tree_triangles env)"
    using reachable_wf[OF Cons.prems(1)] by (simp add: wf_state_def)
  show ?case
  proof (cases "n = m")
    case True
    then show ?thesis using Cons.IH[OF Cons.prems(1-5), of calls] Cons.prems(6) st by simp
  next
    case False
    have c: "cross_pairs st [([n], [m])]"
      using Cons.prems(5,6) False by (simp add: cross_pairs_def valid_ptr_root)
    have "stack_weight env [([n], [m])] \<le> k"
      using root_weight[of n env m] Cons.prems(4,5,6) N by simp
    from refine_loop_returns[OF Cons.prems(1,2) c Cons.prems(3) this]
    obtain s1 where s1: "refine_loop k env [([n], [m])] st = Some s1" and a1: "area_ok env s1"
      by blast
    from refine_loop_reachable[OF s1 Cons.prems(1) c]
    have r1: "reachable env s1" and l1: "length (nodes s1) = length (nodes st)" by auto
    have "\<exists>st' calls'. fold (refine_nodes_inner k env n) ms (Some (s1, calls @ [([n], [m])]))
              = Some (st', calls')
         \<and> reachable env st' \<and> area_ok env st' \<and> length (nodes st') = length (nodes s1)"
      using Cons.IH[OF r1 a1 Cons.prems(3,4)] Cons.prems(5,6) l1 by simp
    then show ?thesis using st False s1 l1 Cons.prems(6) by simp
  qed
qed

lemma refine_nodes_outer_fold_returns:
  "reachable env st \<Longrightarrow> area_ok env st \<Longrightarrow> 0 < A_eps env \<Longrightarrow> seed_fuel env \<le> k
   \<Longrightarrow> length (nodes st) = N \<Longrightarrow> \<forall>n \<in> set ns. n < N
   \<Longrightarrow> \<exists>st' calls'. fold (\<lambda>n. fold (refine_nodes_inner k env n) [0..<N]) ns (Some (st, calls))
            = Some (st', calls')"
proof (induction ns arbitrary: st calls)
  case Nil
  then show ?case by simp
next
  case (Cons n ns)
  have "\<exists>s1 c1. fold (refine_nodes_inner k env n) [0..<N] (Some (st, calls)) = Some (s1, c1)
         \<and> reachable env s1 \<and> area_ok env s1 \<and> length (nodes s1) = length (nodes st)"
    using refine_nodes_inner_fold_returns[OF Cons.prems(1-4), of n "[0..<N]" calls] Cons.prems(5,6)
    by simp
  then obtain s1 c1 where
    f: "fold (refine_nodes_inner k env n) [0..<N] (Some (st, calls)) = Some (s1, c1)"
    and r1: "reachable env s1" and a1: "area_ok env s1" and l1: "length (nodes s1) = N"
    using Cons.prems(5) by auto
  from Cons.IH[OF r1 a1 Cons.prems(3,4) l1, of c1] Cons.prems(6) show ?case
    by (simp add: f)
qed

lemma refine_nodes_traced_returns:
  assumes "0 < A_eps env" and "seed_fuel env \<le> k"
  shows "\<exists>st. refine_nodes_traced k env (init_state env)
                = Some (st, root_pairs (length (tree_triangles env)))"
proof -
  obtain st calls where t: "refine_nodes_traced k env (init_state env) = Some (st, calls)"
    using refine_nodes_outer_fold_returns[OF reach_init area_ok_init assms length_nodes_init,
        of "[0..<length (tree_triangles env)]" "[]"]
    by (auto simp: refine_nodes_traced_def length_nodes_init)
  then show ?thesis using refine_nodes_traced_calls(3)[OF t] by simp
qed

subsection \<open>The calls of \<^verbatim>\<open>refine\<close>\<close>

text \<open>
  What the specification asks of the log of the calls: every unordered pair of two roots
  is refined once, in one of its two orientations.
\<close>

definition once_per_unordered_pair :: "nat \<Rightarrow> (ptr \<times> ptr) list \<Rightarrow> bool" where
  "once_per_unordered_pair N calls \<longleftrightarrow>
     (\<forall>n \<in> {..<N}. \<forall>m \<in> {..<N}. n \<noteq> m \<longrightarrow>
        count_list calls ([n], [m]) + count_list calls ([m], [n]) = 1)"

text \<open>
  C5, as the code has it.  When the loops under \<^verbatim>\<open>// Refine nodes\<close> of \<^verbatim>\<open>compute\<close> return,
  \<^verbatim>\<open>refine\<close> has been called exactly once for every ordered pair \<open>(p, q)\<close> of two distinct
  roots, row by row, and for nothing else: every unordered pair of distinct roots has been
  refined twice, once in each orientation.  And the loops do return when \<open>A_eps\<close> is
  positive: fuel \<open>seed_fuel env\<close> or more is enough for every call of \<^verbatim>\<open>refine\<close>.
\<close>

theorem refine_once_per_ordered_pair:
  "(refine_nodes_traced k env (init_state env) = Some (st, calls) \<longrightarrow>
      calls = root_pairs (length (tree_triangles env))
      \<and> distinct calls
      \<and> set calls = {([n], [m]) | n m. n < length (tree_triangles env)
                                     \<and> m < length (tree_triangles env) \<and> n \<noteq> m}
      \<and> (\<forall>n m. count_list calls ([n], [m]) =
                 (if n < length (tree_triangles env) \<and> m < length (tree_triangles env) \<and> n \<noteq> m
                  then 1 else 0))
      \<and> (\<forall>n m. n < length (tree_triangles env) \<and> m < length (tree_triangles env) \<and> n \<noteq> m
            \<longrightarrow> count_list calls ([n], [m]) + count_list calls ([m], [n]) = 2))
   \<and> (0 < A_eps env \<and> seed_fuel env \<le> k \<longrightarrow>
        (\<exists>st'. refine_nodes_traced k env (init_state env)
                  = Some (st', root_pairs (length (tree_triangles env)))))"
proof (intro conjI impI)
  assume a: "refine_nodes_traced k env (init_state env) = Some (st, calls)"
  have c: "calls = root_pairs (length (tree_triangles env))"
    using a by (rule refine_nodes_traced_calls(3))
  show "calls = root_pairs (length (tree_triangles env))" by (rule c)
  show "distinct calls" unfolding c by (rule distinct_root_pairs)
  show "set calls = {([n], [m]) | n m. n < length (tree_triangles env)
                                     \<and> m < length (tree_triangles env) \<and> n \<noteq> m}"
    unfolding c by (rule set_root_pairs)
  show "\<forall>n m. count_list calls ([n], [m]) =
                 (if n < length (tree_triangles env) \<and> m < length (tree_triangles env) \<and> n \<noteq> m
                  then 1 else 0)"
    unfolding c by (simp add: count_root_pairs)
  show "\<forall>n m. n < length (tree_triangles env) \<and> m < length (tree_triangles env) \<and> n \<noteq> m
            \<longrightarrow> count_list calls ([n], [m]) + count_list calls ([m], [n]) = 2"
    unfolding c by (simp add: count_root_pairs)
next
  assume "0 < A_eps env \<and> seed_fuel env \<le> k"
  then show "\<exists>st'. refine_nodes_traced k env (init_state env)
                  = Some (st', root_pairs (length (tree_triangles env)))"
    using refine_nodes_traced_returns[of env k] by simp
qed

text \<open>In the small scene with \<open>F_eps = 1\<close> every call of \<^verbatim>\<open>refine\<close> links the two roots at once.\<close>

lemma wf_root_info:
  assumes w: "wf_state env st" and n: "n < length (tree_triangles env)"
  shows "tri_id (info_of st [n]) = n" and "root_tri_id (info_of st [n]) = n"
proof -
  have "n < length (nodes st)" using w n by (simp add: wf_state_def)
  then obtain pn where pn: "node_at (nodes st) [n] = Some pn" by simp
  from wf_node[OF w pn] show "tri_id (info_of st [n]) = n" and "root_tri_id (info_of st [n]) = n"
    by (simp_all add: node_ok_def info_of_valid[OF pn])
qed

lemma ex_link_step:
  assumes r: "reachable ex_env_link st" and n: "n < 2" and m: "m < 2"
  shows "refine_step ex_env_link [n] [m] st = (link ex_env_link [n] [m] st, [])"
proof -
  have f: "tree_triangles ex_env_link = [0, 1]" "cos_theta ex_env_link = (\<lambda>p q. 1)"
      "solid_angle ex_env_link = (\<lambda>p q. if p < 100 \<and> q < 100 then 1 else 1/100)"
      "m_pi ex_env_link = 3" "F_eps ex_env_link = 1"
    by (simp_all add: ex_env_def ex_env_link_def)
  have l: "n < length (tree_triangles ex_env_link)" "m < length (tree_triangles ex_env_link)"
    using n m by (simp_all add: f)
  note i = wf_root_info[OF reachable_wf[OF r] l(1)] wf_root_info[OF reachable_wf[OF r] l(2)]
  have t: "get_triangle ex_env_link st (info_of st [n]) < 100"
      "get_triangle ex_env_link st (info_of st [m]) < 100"
    using n m by (auto simp: get_triangle_def is_root_def i f nth_Cons split: nat.splits)
  have "estimate_form_factor ex_env_link st (info_of st [n]) (info_of st [m]) = 1/3"
    "estimate_form_factor ex_env_link st (info_of st [m]) (info_of st [n]) = 1/3"
    using t by (simp_all add: estimate_form_factor_def f(2-4))
  then show ?thesis by (simp add: refine_step_def f(5))
qed

definition ex_seeded :: "(nat, unit) state" where
  "ex_seeded = link ex_env_link [1] [0] ex_one_link"

lemma ex_seeding:
  "refine_nodes_traced 1 ex_env_link (init_state ex_env_link)
     = Some (ex_seeded, [([0], [1]), ([1], [0])])"
proof -
  let ?f = "refine_nodes_inner (Suc 0) ex_env_link"
  have i: "init_state ex_env_link = init_state ex_env"
    by (simp add: init_state_def build_nodes_def ex_env_link_def)
  have r0: "reachable ex_env_link (init_state ex_env)"
    using reach_init[of ex_env_link] by (simp add: i)
  note r1 = ex_one_link_reachable
  have l: "length (nodes (init_state ex_env)) = 2" "length (nodes ex_one_link) = 2"
      "length (nodes ex_seeded) = 2"
    by (simp_all add: ex_init_nodes ex_one_link_def ex_seeded_def)
  have s1: "refine_step ex_env_link [0] [Suc 0] (init_state ex_env) = (ex_one_link, [])"
    using ex_link_step[OF r0, of 0 1] by (simp add: ex_one_link_def)
  have s2: "refine_step ex_env_link [Suc 0] [0] ex_one_link = (ex_seeded, [])"
    using ex_link_step[OF r1, of 1 0] by (simp add: ex_seeded_def)
  have "valid_ptr ex_one_link [Suc 0]" "valid_ptr ex_one_link [0]"
    by (simp_all add: valid_ptr_root l)
  moreover have "root_tri_id (info_of ex_one_link [Suc 0]) \<noteq> root_tri_id (info_of ex_one_link [0])"
    using wf_root_info(2)[OF reachable_wf[OF r1], of 0] wf_root_info(2)[OF reachable_wf[OF r1], of 1]
    by (simp add: ex_env_link_def ex_env_def)
  ultimately have r2: "reachable ex_env_link ex_seeded"
    using reach_refine[OF r1, of "[Suc 0]" "[0]"] by (simp add: s2)
  have a: "?f 0 0 (Some (init_state ex_env, [])) = Some (init_state ex_env, [])"
    using refine_nodes_inner_step[OF r0, of 0 0 1 "[]"] by (simp add: l)
  have b: "?f 0 (Suc 0) (Some (init_state ex_env, [])) = Some (ex_one_link, [([0], [Suc 0])])"
    using refine_nodes_inner_step[OF r0, of 0 1 1 "[]"] by (simp add: l s1)
  have c: "?f (Suc 0) 0 (Some (ex_one_link, [([0], [Suc 0])]))
        = Some (ex_seeded, [([0], [Suc 0]), ([Suc 0], [0])])"
    using refine_nodes_inner_step[OF r1, of 1 0 1 "[([0], [Suc 0])]"] by (simp add: l s2)
  have d: "?f (Suc 0) (Suc 0) (Some (ex_seeded, [([0], [Suc 0]), ([Suc 0], [0])]))
        = Some (ex_seeded, [([0], [Suc 0]), ([Suc 0], [0])])"
    using refine_nodes_inner_step[OF r2, of 1 1 1 "[([0], [Suc 0]), ([Suc 0], [0])]"]
    by (simp add: l)
  have u: "[0..<2] = [0, Suc 0]" by (simp add: upt_rec)
  show ?thesis
    by (simp add: refine_nodes_traced_def i l u a b c d)
qed

lemma ex_seed_fuel: "seed_fuel ex_env = 5 ^ 20"
proof -
  have "patch_rank ex_env [n] = 5" if "n < 2" for n
    using that by (auto simp: patch_rank_def patch_area_def ex_env_def nth_Cons split: nat.splits)
  then have "map (\<lambda>n. patch_rank ex_env [n]) [0..<2] = [5, 5]"
    by (simp add: upt_rec)
  moreover have "length (tree_triangles ex_env) = 2" by (simp add: ex_env_def)
  ultimately show ?thesis by (simp add: seed_fuel_def)
qed

lemma ex_root_pairs: "root_pairs 2 = [([0], [1]), ([1], [0])]"
  by (simp add: root_pairs_def upt_rec)

theorem refine_once_per_ordered_pair_witness:
  "refine_nodes_traced 1 ex_env_link (init_state ex_env_link)
     = Some (ex_seeded, [([0], [1]), ([1], [0])])
   \<and> [([0], [1]), ([1], [0])] = root_pairs (length (tree_triangles ex_env_link))
   \<and> distinct [([0::nat], [1::nat]), ([1], [0])]
   \<and> count_list [([0::nat], [1::nat]), ([1], [0])] ([0], [1]) = 1
   \<and> count_list [([0::nat], [1::nat]), ([1], [0])] ([1], [0]) = 1
   \<and> 0 < A_eps ex_env \<and> seed_fuel ex_env \<le> 5 ^ 20
   \<and> (\<exists>st'. refine_nodes_traced (5 ^ 20) ex_env (init_state ex_env)
               = Some (st', [([0], [1]), ([1], [0])]))"
proof -
  note t = refine_once_per_ordered_pair[where k = 1 and env = ex_env_link and st = ex_seeded
      and calls = "[([0], [1]), ([1], [0])]", THEN conjunct1, rule_format, OF ex_seeding]
  have l: "length (tree_triangles ex_env_link) = 2" by (simp add: ex_env_link_def ex_env_def)
  have 1: "[([0], [1]), ([1], [0])] = root_pairs (length (tree_triangles ex_env_link))"
    by (rule t[THEN conjunct1])
  have 2: "distinct [([0::nat], [1::nat]), ([1], [0])]"
    by (rule t[THEN conjunct2, THEN conjunct1])
  note c = t[THEN conjunct2, THEN conjunct2, THEN conjunct2, THEN conjunct1, rule_format]
  have 3: "count_list [([0::nat], [1::nat]), ([1], [0])] ([0], [1]) = 1"
    using c[of 0 1] by (simp only: l) simp
  have 4: "count_list [([0::nat], [1::nat]), ([1], [0])] ([1], [0]) = 1"
    using c[of 1 0] by (simp only: l) simp
  have 5: "0 < A_eps ex_env" by (simp add: ex_env_def)
  have 6: "seed_fuel ex_env \<le> 5 ^ 20" by (simp only: ex_seed_fuel order_refl)
  have l': "length (tree_triangles ex_env) = 2" by (simp add: ex_env_def)
  have 7: "\<exists>st'. refine_nodes_traced (5 ^ 20) ex_env (init_state ex_env)
               = Some (st', [([0], [1]), ([1], [0])])"
    using refine_once_per_ordered_pair[where k = "5 ^ 20" and env = ex_env,
        THEN conjunct2, rule_format, OF conjI[OF 5 6]]
    by (simp only: l' ex_root_pairs)
  show ?thesis by (intro conjI ex_seeding 1 2 3 4 5 6 7)
qed

text \<open>
  The scene has two roots; the one unordered pair of roots is refined twice, as
  \<open>(0, 1)\<close> and as \<open>(1, 0)\<close>.
\<close>

theorem refine_unordered_pair_counterexample:
  "refine_nodes_traced 1 ex_env_link (init_state ex_env_link)
     = Some (ex_seeded, [([0], [1]), ([1], [0])])
   \<and> \<not> once_per_unordered_pair 2 [([0], [1]), ([1], [0])]"
proof -
  have "\<not> once_per_unordered_pair 2 [([0], [1]), ([1], [0])]"
    unfolding once_per_unordered_pair_def
    by (simp add: Ball_def) (rule exI[of _ 0], simp, rule exI[of _ 1], simp)
  then show ?thesis using ex_seeding by simp
qed

section \<open>The states of \<^verbatim>\<open>compute\<close> are reachable\<close>

lemma gather_loop_reachable: "reachable env st \<Longrightarrow> reachable env (gather_loop stack st)"
proof (induction stack st rule: gather_loop.induct)
  case (1 st)
  then show ?case by (simp add: gather_loop.simps)
next
  case (2 p stack st)
  have r: "reachable env (gather_node st p)" using "2.prems" by (rule reach_gather)
  show ?case
  proof (cases "node_at (nodes st) p")
    case None
    then show ?thesis using 2 by (simp add: gather_loop.simps)
  next
    case (Some pn)
    show ?thesis
    proof (cases "is_leaf (node_of (gather_node st p) p)")
      case True
      then show ?thesis using "2.IH"(2)[OF Some refl True r] Some
        by (simp add: gather_loop.simps Let_def)
    next
      case False
      then show ?thesis using "2.IH"(3)[OF Some refl False r] Some
        by (simp add: gather_loop.simps Let_def)
    qed
  qed
qed

lemma fold_reachable:
  "(\<And>x s. reachable env s \<Longrightarrow> reachable env (f x s)) \<Longrightarrow> reachable env st
   \<Longrightarrow> reachable env (fold f xs st)"
  by (induction xs arbitrary: st) auto

lemma solve_iteration_reachable: "reachable env st \<Longrightarrow> reachable env (solve_iteration st)"
  unfolding solve_iteration_def gather_sweep_def gather_radiosity_def
  by (intro reach_push_pull fold_reachable gather_loop_reachable)

lemma funpow_reachable:
  "reachable env st \<Longrightarrow> reachable env ((solve_iteration ^^ n) st)"
  by (induction n) (auto simp: solve_iteration_reachable)

lemma solve_system_reachable: "reachable env st \<Longrightarrow> reachable env (solve_system env st)"
  unfolding solve_system_def by (rule funpow_reachable)


text \<open>
  The pass over the links of \<open>p\<close>: every link handed to \<^verbatim>\<open>refine_link\<close> is a link of \<open>p\<close>,
  because \<open>size\<close> never exceeds the number of links \<open>p\<close> has.
\<close>

lemma refine_links_loop_reachable:
  "reachable env st \<Longrightarrow> valid_ptr st p \<Longrightarrow> sz \<le> length (gathering_from (info_of st p))
   \<Longrightarrow> reachable env (snd (refine_links_loop env p i sz (b, st)))
       \<and> (\<forall>x. valid_ptr st x \<longrightarrow> valid_ptr (snd (refine_links_loop env p i sz (b, st))) x)"
proof (induction env p i sz "(b, st)" arbitrary: b st rule: refine_links_loop.induct)
  case (1 env p i sz refined st)
  show ?case
  proof (cases "i < sz")
    case False
    then show ?thesis using "1.prems" by (simp add: refine_links_loop.simps)
  next
    case True
    let ?l = "gathering_from (info_of st p) ! i"
    obtain pn where pn: "node_at (nodes st) p = Some pn"
      using "1.prems"(2) by (auto simp: valid_ptr_def)
    have ip: "info_of st p = info pn" using pn by (rule info_of_valid)
    have lm: "?l \<in> set (gathering_from (info_of st p))" using True "1.prems"(3) by simp
    note w = reachable_wf[OF "1.prems"(1)]
    obtain qn where qn: "node_at (nodes st) (link_q ?l) = Some qn"
      using wf_link_target(1)[OF w pn lm[unfolded ip]] by (auto simp: valid_ptr_def ip)
    obtain b' st' where rl: "refine_link env p ?l st = (b', st')"
      by (cases "refine_link env p ?l st")
    note e = refine_link_effect[OF pn qn wf_shape_ok[OF w] rl]
    have r': "reachable env st'"
      using reach_refine_link[OF "1.prems"(1,2) lm] by (simp add: rl)
    obtain new k where ob: "obs_at (nodes st') p =
        Some ((info pn)\<lparr>gathering_from := gathering_from (info pn) @ new\<rparr>, k)"
      using e(1) by blast
    have vp': "valid_ptr st' p" using e(3) "1.prems"(2) by simp
    show ?thesis
    proof (cases b')
      case True
      then have bt: "b' = True" by simp
      let ?s = "erase_link p i st'"
      have "reachable env ?s" using r' by (rule reach_erase)
      moreover have "valid_ptr ?s p" using vp' by simp
      moreover have "sz - 1 \<le> length (gathering_from (info_of ?s p))"
        using obs_at_erase_link_same[OF ob, of i] "1.prems"(3) \<open>i < sz\<close>
        by (simp add: info_of_obs_at ip)
      ultimately show ?thesis
        using "1.hyps"(1)[OF \<open>i < sz\<close> rl[symmetric] bt] e(3) \<open>i < sz\<close> rl True
        by (simp add: refine_links_loop.simps[of env p i sz])
    next
      case False
      then have bf: "b' = False" by simp
      have "sz \<le> length (gathering_from (info_of st' p))"
        using ob "1.prems"(3) by (simp add: info_of_obs_at ip)
      then show ?thesis
        using "1.hyps"(2)[OF \<open>i < sz\<close> rl[symmetric] bf r' vp'] e(3) \<open>i < sz\<close> rl False
        by (simp add: refine_links_loop.simps[of env p i sz])
    qed
  qed
qed

text \<open>One call in the loops of \<^verbatim>\<open>refine_links\<close>: the flag is accumulated, the state threaded.\<close>

lemma refine_links_fold_None:
  "fold (\<lambda>c r. case r of None \<Rightarrow> None
          | Some (refined, s) \<Rightarrow>
              (case g c s of None \<Rightarrow> None | Some (b, s') \<Rightarrow> Some (refined \<or> b, s')))
     cs None = None"
  by (induction cs) simp_all

lemma refine_links_fold_reachable:
  assumes step: "\<And>c s b s'. g c s = Some (b, s') \<Longrightarrow> reachable env s \<Longrightarrow> valid_ptr s c
            \<Longrightarrow> reachable env s' \<and> (\<forall>x. valid_ptr s x \<longrightarrow> valid_ptr s' x)"
  shows "fold (\<lambda>c r. case r of None \<Rightarrow> None
            | Some (refined, s) \<Rightarrow>
                (case g c s of None \<Rightarrow> None | Some (b, s') \<Rightarrow> Some (refined \<or> b, s')))
           cs (Some (r, st)) = Some (r', st')
         \<Longrightarrow> reachable env st \<Longrightarrow> \<forall>c \<in> set cs. valid_ptr st c
         \<Longrightarrow> reachable env st' \<and> (\<forall>x. valid_ptr st x \<longrightarrow> valid_ptr st' x)"
proof (induction cs arbitrary: r st)
  case Nil
  then show ?case by simp
next
  case (Cons c cs)
  show ?case
  proof (cases "g c st")
    case None
    then show ?thesis using Cons.prems(1) by (simp add: refine_links_fold_None)
  next
    case (Some bs)
    obtain b s1 where bs: "bs = (b, s1)" by (cases bs)
    have g: "g c st = Some (b, s1)" using Some bs by simp
    from step[OF g Cons.prems(2)] Cons.prems(3)
    have r1: "reachable env s1" and m: "\<forall>x. valid_ptr st x \<longrightarrow> valid_ptr s1 x" by auto
    have "fold (\<lambda>c r. case r of None \<Rightarrow> None
            | Some (refined, s) \<Rightarrow>
                (case g c s of None \<Rightarrow> None | Some (b, s') \<Rightarrow> Some (refined \<or> b, s')))
           cs (Some (r \<or> b, s1)) = Some (r', st')"
      using Cons.prems(1) g by simp
    from Cons.IH[OF this r1] Cons.prems(3) m show ?thesis by auto
  qed
qed

lemma refine_links_node_reachable:
  "refine_links_node n env p st = Some (b, st') \<Longrightarrow> reachable env st \<Longrightarrow> valid_ptr st p
   \<Longrightarrow> reachable env st' \<and> (\<forall>x. valid_ptr st x \<longrightarrow> valid_ptr st' x)"
proof (induction n arbitrary: p st b st')
  case 0
  then show ?case by simp
next
  case (Suc n)
  let ?kids = "if \<not> is_leaf (node_of st p)
            then fold (\<lambda>c r. case r of None \<Rightarrow> None
                        | Some (refined, s) \<Rightarrow>
                            (case refine_links_node n env c s of None \<Rightarrow> None
                             | Some (b, s') \<Rightarrow> Some (refined \<or> b, s')))
                   (child_ptrs st p) (Some (False, st))
            else Some (False, st)"
  obtain r1 s1 where k: "?kids = Some (r1, s1)"
    and l: "refine_links_loop env p 0 (length (gathering_from (info_of s1 p))) (r1, s1) = (b, st')"
    using Suc.prems(1) by (auto split: option.splits)
  have "reachable env s1 \<and> (\<forall>x. valid_ptr st x \<longrightarrow> valid_ptr s1 x)"
  proof (cases "is_leaf (node_of st p)")
    case True
    then show ?thesis using k Suc.prems(2) by simp
  next
    case False
    then have f: "fold (\<lambda>c r. case r of None \<Rightarrow> None
                        | Some (refined, s) \<Rightarrow>
                            (case refine_links_node n env c s of None \<Rightarrow> None
                             | Some (b, s') \<Rightarrow> Some (refined \<or> b, s')))
                   (child_ptrs st p) (Some (False, st)) = Some (r1, s1)"
      using k by simp
    have "\<forall>c \<in> set (child_ptrs st p). valid_ptr st c"
      using valid_child_ptrs(1)[OF Suc.prems(3)] by blast
    from refine_links_fold_reachable[of "refine_links_node n env" env, OF Suc.IH f Suc.prems(2) this]
    show ?thesis .
  qed
  then have r1: "reachable env s1" and m: "\<forall>x. valid_ptr st x \<longrightarrow> valid_ptr s1 x" by auto
  have "valid_ptr s1 p" using m Suc.prems(3) by simp
  from refine_links_loop_reachable[OF r1 this order_refl, of 0 r1] l m
  show ?case by simp
qed

lemma refine_links_reachable:
  assumes "refine_links n env st = Some (b, st')" and r: "reachable env st"
  shows "reachable env st'"
proof -
  have "\<forall>c \<in> set (map (\<lambda>i. [i]) [0..<length (nodes st)]). valid_ptr st c"
    by (simp add: valid_ptr_root)
  moreover have "fold (\<lambda>c r. case r of None \<Rightarrow> None
            | Some (refined, s) \<Rightarrow>
                (case refine_links_node n env c s of None \<Rightarrow> None
                 | Some (b, s') \<Rightarrow> Some (refined \<or> b, s')))
           (map (\<lambda>i. [i]) [0..<length (nodes st)]) (Some (False, st)) = Some (b, st')"
    using assms(1) by (simp add: refine_links_def fold_map comp_def)
  moreover have "refine_links_node n env c s = Some (b, s') \<Longrightarrow> reachable env s \<Longrightarrow> valid_ptr s c
      \<Longrightarrow> reachable env s' \<and> (\<forall>x. valid_ptr s x \<longrightarrow> valid_ptr s' x)" for c s b s'
    by (rule refine_links_node_reachable)
  ultimately show ?thesis
    using refine_links_fold_reachable[of "refine_links_node n env" env _ False st b st'] r
    by blast
qed

lemma solve_refine_loop_reachable:
  "solve_refine_loop n k env st = Some st' \<Longrightarrow> reachable env st \<Longrightarrow> reachable env st'"
proof (induction n arbitrary: st)
  case 0
  then show ?case by simp
next
  case (Suc n)
  obtain refined s1 where s: "refine_links k env (solve_system env st) = Some (refined, s1)"
    using Suc.prems(1) by (auto split: option.splits)
  have r1: "reachable env s1"
    using refine_links_reachable[OF s solve_system_reachable[OF Suc.prems(2)]] .
  show ?case
  proof (cases refined)
    case True
    then show ?thesis using Suc.IH[OF _ r1] Suc.prems(1) s by simp
  next
    case False
    then show ?thesis using Suc.prems(1) s r1 by simp
  qed
qed

lemma compute_reachable: "compute k env = Some st \<Longrightarrow> reachable env st"
proof -
  assume c: "compute k env = Some st"
  then obtain s1 calls where t: "refine_nodes_traced k env (init_state env) = Some (s1, calls)"
    and l: "solve_refine_loop k k env s1 = Some st"
    by (auto simp: compute_def refine_nodes_def split: option.splits)
  from solve_refine_loop_reachable[OF l refine_nodes_traced_calls(1)[OF t]] show ?thesis .
qed

end
